theory Spec2Isabelle
  imports Main "HOL-Library.Word"
begin

section \<open>Strings and numbers of the source\<close>

text \<open>
  A JavaScript string is a sequence of UTF-16 code units and \<open>s.length\<close> counts
  them, so a string is a list of 16-bit words.  The zero-width sentinel of the editor
  is the single code unit U+FEFF.  The \<open>number\<close> arguments of the editing
  functions (\<open>index\<close>, \<open>length\<close>) are offsets and counts; they are modelled
  as unbounded integers, negative ones included.
\<close>

type_synonym jsstring = "16 word list"

definition js :: "string \<Rightarrow> jsstring" where
  "js s = map of_char s"

definition FEFF :: "16 word" where
  "FEFF = 0xFEFF"

text \<open>
  \<open>String.prototype.slice(start, end)\<close>: a negative argument counts from the end
  of the string, both arguments are then clamped to \<open>[0, length]\<close>, and the result
  is empty when the start is not before the end.  \<open>slice(start)\<close> runs to the end
  of the string.
\<close>

definition relativeIndex :: "int \<Rightarrow> int \<Rightarrow> nat" where
  "relativeIndex n k = (if k < 0 then nat (max (n + k) 0) else nat (min k n))"

definition slice :: "'a list \<Rightarrow> int \<Rightarrow> int \<Rightarrow> 'a list" where
  "slice s start end' =
     (let n = int (length s);
          from = relativeIndex n start;
          to = relativeIndex n end'
      in take (to - from) (drop from s))"

definition sliceFrom :: "'a list \<Rightarrow> int \<Rightarrow> 'a list" where
  "sliceFrom s start = slice s start (int (length s))"

section \<open>Inline runs\<close>

text \<open>
  The \<open>Inline\<close> object \<open>{id, attributes, text, type, isEmbed}\<close>.  The fields
  \<open>id\<close>, \<open>text\<close> and \<open>type\<close> carry the suffix \<open>_inline\<close>.  The
  attributes, which the functions below copy and never read, are a list of key/value
  pairs.
\<close>

record Inline =
  id_inline :: jsstring
  attributes :: "(jsstring \<times> jsstring) list"
  text_inline :: jsstring
  type_inline :: jsstring
  isEmbed :: bool

text \<open>The length one run takes in the linear index space of
  \<open>deleteInlineContents\<close> and \<open>splitInlineContents\<close>:
  \<open>contents[i].isEmbed ? 1 : contents[i].text.length\<close>.\<close>

definition inlineLength :: "Inline \<Rightarrow> int" where
  "inlineLength c = (if isEmbed c then 1 else int (length (text_inline c)))"

definition contentsLength :: "Inline list \<Rightarrow> int" where
  "contentsLength cs = sum_list (map inlineLength cs)"

section \<open>deleteInlineContents\<close>

text \<open>
  The loop variables of \<open>deleteInlineContents\<close>: the output array, the running
  offset and the remaining \<open>length\<close> (the parameter is reassigned in the loop).
  The default value of \<open>length\<close>, 1, is an argument like any other.
\<close>

record delete_state =
  destContents :: "Inline list"
  cumulativeLength :: int
  remaining :: int

text \<open>One iteration of the \<open>for\<close> loop, on the run \<open>contents[i]\<close>.\<close>

definition deleteStep :: "int \<Rightarrow> delete_state \<Rightarrow> Inline \<Rightarrow> delete_state" where
  "deleteStep startIndex s c =
     (let len = inlineLength c in
      if remaining s > 0 \<and> startIndex \<ge> cumulativeLength s
           \<and> startIndex < cumulativeLength s + len then
        if \<not> isEmbed c then
          (let deleteIndex = startIndex - cumulativeLength s;
               textlength = int (length (text_inline c)) - deleteIndex;
               deletelength = (if textlength - remaining s \<ge> 0 then remaining s else textlength);
               txt = slice (text_inline c) 0 deleteIndex
                       @ sliceFrom (text_inline c) (deleteIndex + deletelength)
           in \<lparr> destContents =
                  (if length txt > 0 then destContents s @ [c\<lparr>text_inline := txt\<rparr>]
                   else destContents s),
                cumulativeLength = cumulativeLength s + len,
                remaining = remaining s - deletelength \<rparr>)
        else
          \<lparr> destContents = destContents s,
            cumulativeLength = cumulativeLength s + len,
            remaining = remaining s - 1 \<rparr>
      else
        \<lparr> destContents = destContents s @ [c],
          cumulativeLength = cumulativeLength s + len,
          remaining = remaining s \<rparr>)"

definition deleteLoop :: "Inline list \<Rightarrow> int \<Rightarrow> int \<Rightarrow> delete_state" where
  "deleteLoop contents index len =
     foldl (deleteStep index)
       \<lparr> destContents = [], cumulativeLength = 0, remaining = len \<rparr> contents"

text \<open>
  \<open>createInline\<close> is imported from \<open>./inline\<close>, which is not among the sources; it
  draws a fresh id.  The run that the call \<open>createInline('TEXT')\<close> returns is the
  parameter \<open>newInline\<close>.
\<close>

definition deleteInlineContents :: "Inline \<Rightarrow> Inline list \<Rightarrow> int \<Rightarrow> int \<Rightarrow> Inline list" where
  "deleteInlineContents newInline contents index len =
     (let dest = destContents (deleteLoop contents index len) in
      if length dest < 1 then dest @ [newInline] else dest)"

section \<open>splitInlineContents\<close>

text \<open>
  The loop variables of \<open>splitInlineContents\<close>: the two output arrays, the running
  offset and the remaining \<open>length\<close>, whose default value is 0.
\<close>

record split_state =
  firstContents :: "Inline list"
  lastContents :: "Inline list"
  cumulativeLengthS :: int
  remainingS :: int

definition splitStep :: "int \<Rightarrow> split_state \<Rightarrow> Inline \<Rightarrow> split_state" where
  "splitStep startIndex s c =
     (let len = inlineLength c in
      if startIndex \<ge> cumulativeLengthS s \<and> startIndex < cumulativeLengthS s + len then
        if \<not> isEmbed c then
          (let deleteIndex = startIndex - cumulativeLengthS s;
               textlength = int (length (text_inline c)) - deleteIndex;
               deletelength = (if textlength - remainingS s \<ge> 0 then remainingS s else textlength);
               firstText = slice (text_inline c) 0 deleteIndex;
               lastText = sliceFrom (text_inline c) (deleteIndex + deletelength)
           in \<lparr> firstContents =
                  (if length firstText > 0 then firstContents s @ [c\<lparr>text_inline := firstText\<rparr>]
                   else firstContents s),
                lastContents =
                  (if length lastText > 0 then lastContents s @ [c\<lparr>text_inline := lastText\<rparr>]
                   else lastContents s),
                cumulativeLengthS = cumulativeLengthS s + len,
                remainingS = remainingS s - deletelength \<rparr>)
        else
          \<lparr> firstContents = firstContents s,
            lastContents = lastContents s @ [c],
            cumulativeLengthS = cumulativeLengthS s + len,
            remainingS = remainingS s - 1 \<rparr>
      else if remainingS s > 0 then
        \<lparr> firstContents = firstContents s @ [c],
          lastContents = lastContents s,
          cumulativeLengthS = cumulativeLengthS s + len,
          remainingS = remainingS s \<rparr>
      else
        \<lparr> firstContents = firstContents s,
          lastContents = lastContents s @ [c],
          cumulativeLengthS = cumulativeLengthS s + len,
          remainingS = remainingS s \<rparr>)"

definition splitLoop :: "Inline list \<Rightarrow> int \<Rightarrow> int \<Rightarrow> split_state" where
  "splitLoop contents index len =
     foldl (splitStep index)
       \<lparr> firstContents = [], lastContents = [], cumulativeLengthS = 0, remainingS = len \<rparr>
       contents"

definition splitInlineContents :: "Inline list \<Rightarrow> int \<Rightarrow> int \<Rightarrow> Inline list \<times> Inline list" where
  "splitInlineContents contents index len =
     (let s = splitLoop contents index len in (firstContents s, lastContents s))"

section \<open>The rendered block\<close>

text \<open>
  \<open>getBlockLength\<close>, \<open>getInlineContents\<close> and \<open>getNativeIndexFromBlockIndex\<close>
  read the rendered block: an element whose children are the rendered runs.  Of a child
  the code reads \<open>dataset.format\<close>, \<open>dataset.inlineId\<close> (absent: \<open>None\<close>),
  \<open>innerText\<close> and \<open>firstChild\<close> (absent, a \<open>Text\<close> node, or another node).
\<close>

datatype NodeKind = TextNode | OtherNode

record InlineElement =
  dataset_format :: "jsstring option"
  dataset_inlineId :: "jsstring option"
  innerText :: jsstring
  firstChild :: "NodeKind option"

datatype HTMLElement = Element (children: "InlineElement list")

text \<open>
  The argument \<open>block: string | HTMLElement\<close>.  A block id is looked up with
  \<open>document.querySelector\<close>; the document is the function from block ids to the
  element found, if any.  An id that breaks the selector string, for which
  \<open>querySelector\<close> throws, is outside this function: the theorems below are about a
  block given as an element, or about a block that is found.
\<close>

datatype BlockArg = ById jsstring | ByElement HTMLElement

type_synonym Document = "jsstring \<Rightarrow> HTMLElement option"

definition getBlockElementById :: "Document \<Rightarrow> jsstring \<Rightarrow> HTMLElement option" where
  "getBlockElementById doc blockId = doc blockId"

text \<open>\<open>block instanceof HTMLElement ? block : getBlockElementById(block)\<close>\<close>

definition elementOf :: "Document \<Rightarrow> BlockArg \<Rightarrow> HTMLElement option" where
  "elementOf doc block =
     (case block of ByElement e \<Rightarrow> Some e | ById blockId \<Rightarrow> getBlockElementById doc blockId)"

text \<open>
  \<open>dataset.format?.replace(/^inline\//, '').toUpperCase()\<close>.  \<open>toUpperCase\<close> is
  given on the code units \<open>a\<close> to \<open>z\<close> only; other code units are returned as they
  are, where the method of the language maps every cased character.  The two agree on
  ASCII format tags, such as \<open>inline/text\<close>, and on whether the result is empty; no
  proof below unfolds this definition.
\<close>

definition stripInlinePrefix :: "jsstring \<Rightarrow> jsstring" where
  "stripInlinePrefix s = (if take 7 s = js ''inline/'' then drop 7 s else s)"

definition toUpperCase :: "jsstring \<Rightarrow> jsstring" where
  "toUpperCase s = map (\<lambda>u. if 0x61 \<le> u \<and> u \<le> 0x7A then u - 0x20 else u) s"

definition formatOf :: "InlineElement \<Rightarrow> jsstring option" where
  "formatOf e = map_option (\<lambda>f. toUpperCase (stripInlinePrefix f)) (dataset_format e)"

text \<open>Truthiness of an optional string: \<open>undefined\<close> and \<open>''\<close> are falsy.\<close>

definition truthy :: "jsstring option \<Rightarrow> bool" where
  "truthy v = (case v of None \<Rightarrow> False | Some s \<Rightarrow> s \<noteq> [])"

text \<open>\<open>s.replaceAll(re, '')\<close> for the pattern \<open>re\<close> of the one code unit U+FEFF, which has no other case.\<close>

definition removeFEFF :: "jsstring \<Rightarrow> jsstring" where
  "removeFEFF s = filter (\<lambda>u. u \<noteq> FEFF) s"

text \<open>
  \<open>isEmbed\<close> is imported from \<open>./inline\<close>, which is not among the sources.  It is
  the parameter \<open>isEmbedOf\<close> of the functions below; its argument is the format
  computed above, which may be \<open>undefined\<close>.
\<close>

subsection \<open>getBlockLength\<close>

fun blockLengthLoop :: "(jsstring option \<Rightarrow> bool) \<Rightarrow> InlineElement list \<Rightarrow> int \<Rightarrow> int" where
  "blockLengthLoop isEmbedOf [] cumulative = cumulative"
| "blockLengthLoop isEmbedOf (targetElement # rest) cumulative =
     (let format = formatOf targetElement;
          len = (if isEmbedOf format then 1
                 else int (length (removeFEFF (innerText targetElement))))
      in blockLengthLoop isEmbedOf rest (cumulative + len))"

definition getBlockLength ::
  "(jsstring option \<Rightarrow> bool) \<Rightarrow> Document \<Rightarrow> BlockArg \<Rightarrow> int option" where
  "getBlockLength isEmbedOf doc block =
     (case elementOf doc block of
        None \<Rightarrow> None
      | Some element \<Rightarrow> Some (blockLengthLoop isEmbedOf (children element) 0))"

subsection \<open>getInlineContents\<close>

record sync_result =
  contents :: "Inline list"
  affected :: bool
  affectedLength :: int

text \<open>
  The callback of \<open>reduce\<close>, with the accumulator \<open>r\<close> and the two captured
  variables \<open>affected\<close> and \<open>affectedLength\<close> in one state; \<open>currentIndex\<close> is the
  position of the child among all children.
\<close>

definition reduceInline ::
  "(jsstring option \<Rightarrow> bool) \<Rightarrow> sync_result \<Rightarrow> InlineElement \<Rightarrow> nat \<Rightarrow> sync_result" where
  "reduceInline isEmbedOf s inline currentIndex =
     (let format = formatOf inline in
      case (format, dataset_inlineId inline) of
        (Some fmt, Some inlineId) \<Rightarrow>
          if fmt = [] \<or> inlineId = [] then s
          else
            (let endsFEFF = (innerText inline \<noteq> [] \<and> last (innerText inline) = FEFF);
                 startsFEFF = (take 1 (innerText inline) = [FEFF]);
                 txt0 = removeFEFF (innerText inline);
                 txt = (if currentIndex = 0 \<and> length txt0 < 1 then [FEFF] else txt0)
             in \<lparr> contents = contents s @
                    [\<lparr> id_inline = inlineId, attributes = [], text_inline = txt,
                       type_inline = fmt, isEmbed = isEmbedOf format \<rparr>],
                  affected = (startsFEFF \<or> endsFEFF \<or> affected s),
                  affectedLength = (if startsFEFF then - 1 else affectedLength s) \<rparr>)
      | _ \<Rightarrow> s)"

fun reduceChildren ::
  "(jsstring option \<Rightarrow> bool) \<Rightarrow> InlineElement list \<Rightarrow> nat \<Rightarrow> sync_result \<Rightarrow> sync_result" where
  "reduceChildren isEmbedOf [] currentIndex s = s"
| "reduceChildren isEmbedOf (inline # rest) currentIndex s =
     reduceChildren isEmbedOf rest (Suc currentIndex) (reduceInline isEmbedOf s inline currentIndex)"

definition getInlineContents ::
  "(jsstring option \<Rightarrow> bool) \<Rightarrow> Document \<Rightarrow> BlockArg \<Rightarrow> sync_result" where
  "getInlineContents isEmbedOf doc block =
     (case elementOf doc block of
        None \<Rightarrow> \<lparr> contents = [], affected = False, affectedLength = 0 \<rparr>
      | Some element \<Rightarrow>
          reduceChildren isEmbedOf (children element) 0
            \<lparr> contents = [], affected = False, affectedLength = 0 \<rparr>)"

subsection \<open>getNativeIndexFromBlockIndex\<close>

text \<open>
  The result \<open>{node, index}\<close>.  The node is the first child of the \<open>i\<close>-th child
  when that is a \<open>Text\<close> node, and the \<open>i\<close>-th child itself otherwise.
\<close>

datatype NodeRef = FirstChildOf nat | ChildAt nat

record NativePosition =
  node :: NodeRef
  nativeIndex :: int

fun nativeIndexLoop ::
  "(jsstring option \<Rightarrow> bool) \<Rightarrow> InlineElement list \<Rightarrow> nat \<Rightarrow> int \<Rightarrow> int \<Rightarrow> NativePosition option" where
  "nativeIndexLoop isEmbedOf [] i idx cumulative = None"
| "nativeIndexLoop isEmbedOf (targetElement # rest) i idx cumulative =
     (let format = formatOf targetElement in
      if truthy format then
        (let len = (if isEmbedOf format then 1 else int (length (innerText targetElement)));
             inlineNode = firstChild targetElement
         in if idx \<le> cumulative + len \<and> inlineNode \<noteq> None then
              Some \<lparr> node = (if inlineNode = Some TextNode then FirstChildOf i else ChildAt i),
                     nativeIndex = idx - cumulative \<rparr>
            else nativeIndexLoop isEmbedOf rest (Suc i) idx (cumulative + len))
      else nativeIndexLoop isEmbedOf rest (Suc i) idx cumulative)"

definition getNativeIndexFromBlockIndex ::
  "(jsstring option \<Rightarrow> bool) \<Rightarrow> Document \<Rightarrow> BlockArg \<Rightarrow> int \<Rightarrow> NativePosition option" where
  "getNativeIndexFromBlockIndex isEmbedOf doc block idx =
     (case elementOf doc block of
        None \<Rightarrow> None
      | Some element \<Rightarrow> nativeIndexLoop isEmbedOf (children element) 0 idx 0)"

section \<open>The history stack\<close>

text \<open>
  The history module (\<open>HistoryModule\<close>, imported from \<open>../modules\<close>) is not
  among the sources; only the type \<open>Source\<close> and the settings
  \<open>history: {maxStack: 50, delay: 1000}\<close> are.  The type is the one of the sources;
  the stack and its operations follow the section of the specification on the History
  Engine.
\<close>

datatype Source = User | Silent | Collaborator

text \<open>
  Modelled from the spec: the history frame \<open>{inverseOperations, source, timestamp}\<close>
  and the state of the history engine, which are missing from the sources: the stack
  of frames with the oldest frame first, the redo stack, the configured maximum frame
  count and delay, and the time of the last recorded mutation while its frame is open.
\<close>

record 'op HistoryFrame =
  inverseOperations :: "'op list"
  frameSource :: Source
  timestamp :: int

record 'op History =
  undoStack :: "'op HistoryFrame list"
  redoStack :: "'op HistoryFrame list"
  maxStack :: nat
  delay :: int
  lastRecorded :: "int option"

definition newHistory :: "nat \<Rightarrow> int \<Rightarrow> 'op History" where
  "newHistory bound d =
     \<lparr> undoStack = [], redoStack = [], maxStack = bound, delay = d, lastRecorded = None \<rparr>"

text \<open>
  Modelled from the spec: the push onto the bounded stack, missing from the sources;
  pushing beyond the bound evicts the oldest frame.
\<close>

definition pushFrame ::
  "nat \<Rightarrow> 'op HistoryFrame \<Rightarrow> 'op HistoryFrame list \<Rightarrow> 'op HistoryFrame list" where
  "pushFrame bound f st = (let st' = st @ [f] in if length st' > bound then tl st' else st')"

text \<open>
  Modelled from the spec: the recording of a mutation, missing from the sources.  Only a
  user-sourced mutation is recorded; its inverse operation is merged into the open
  frame when the time since the last recorded mutation is below the delay, and
  appended as a new frame otherwise.
\<close>

definition recordMutation :: "'op History \<Rightarrow> Source \<Rightarrow> 'op \<Rightarrow> int \<Rightarrow> 'op History" where
  "recordMutation h src inverseOp now =
     (if src \<noteq> User then h
      else
        (let fresh = \<lparr> inverseOperations = [inverseOp], frameSource = src, timestamp = now \<rparr>;
             pushed = h\<lparr> undoStack := pushFrame (maxStack h) fresh (undoStack h),
                         lastRecorded := Some now \<rparr>
         in case lastRecorded h of
              None \<Rightarrow> pushed
            | Some t \<Rightarrow>
                if now - t < delay h \<and> undoStack h \<noteq> [] then
                  h\<lparr> undoStack := butlast (undoStack h) @
                        [(last (undoStack h))
                           \<lparr> inverseOperations :=
                               inverseOp # inverseOperations (last (undoStack h)) \<rparr>],
                     lastRecorded := Some now \<rparr>
                else pushed))"

text \<open>
  Modelled from the spec: \<open>undo\<close> and \<open>redo\<close>, missing from the sources.  Undo pops
  the most recent frame and pushes it onto the redo stack; redo is symmetric; both
  close the open frame and are no-ops on an empty stack.
\<close>

definition undo :: "'op History \<Rightarrow> 'op History" where
  "undo h =
     (if undoStack h = [] then h
      else h\<lparr> undoStack := butlast (undoStack h),
              redoStack := redoStack h @ [last (undoStack h)],
              lastRecorded := None \<rparr>)"

definition redo :: "'op History \<Rightarrow> 'op History" where
  "redo h =
     (if redoStack h = [] then h
      else h\<lparr> redoStack := butlast (redoStack h),
              undoStack := pushFrame (maxStack h) (last (redoStack h)) (undoStack h),
              lastRecorded := None \<rparr>)"

text \<open>
  Modelled from the spec: a session as a sequence of mutations, each with its source,
  inverse operation and time, undos and redos.
\<close>

datatype 'op HistoryEvent = Mutate Source 'op int | Undo | Redo

fun applyEvent :: "'op History \<Rightarrow> 'op HistoryEvent \<Rightarrow> 'op History" where
  "applyEvent h (Mutate src inverseOp now) = recordMutation h src inverseOp now"
| "applyEvent h Undo = undo h"
| "applyEvent h Redo = redo h"

definition runHistory :: "'op History \<Rightarrow> 'op HistoryEvent list \<Rightarrow> 'op History" where
  "runHistory h events = foldl applyEvent h events"

section \<open>Reference functions and concrete inputs\<close>

text \<open>The length \<open>getNativeIndexFromBlockIndex\<close> walks: children without a format
  are passed over, an embed takes one unit, a text run its whole \<open>innerText\<close>.\<close>

definition nativeRunLength :: "(jsstring option \<Rightarrow> bool) \<Rightarrow> InlineElement \<Rightarrow> int" where
  "nativeRunLength isEmbedOf t =
     (if truthy (formatOf t) then
        (if isEmbedOf (formatOf t) then 1 else int (length (innerText t)))
      else 0)"

definition nativeLength :: "(jsstring option \<Rightarrow> bool) \<Rightarrow> InlineElement list \<Rightarrow> int" where
  "nativeLength isEmbedOf cs = sum_list (map (nativeRunLength isEmbedOf) cs)"

text \<open>
  The test under which the walk returns at the run \<open>t\<close> that stands after the runs
  \<open>pre\<close>: \<open>t\<close> has a format, the index is at most the walked length up to and
  including \<open>t\<close>, and \<open>t\<close> has a child node
  (\<open>index <= cumulativeLength + inlineLength && inlineNode\<close> under \<open>if (format)\<close>).
\<close>

definition walkStopsAt ::
  "(jsstring option \<Rightarrow> bool) \<Rightarrow> int \<Rightarrow> InlineElement list \<Rightarrow> InlineElement \<Rightarrow> bool" where
  "walkStopsAt isEmbedOf idx pre t =
     (truthy (formatOf t) \<and> idx \<le> nativeLength isEmbedOf pre + nativeRunLength isEmbedOf t
        \<and> firstChild t \<noteq> None)"

text \<open>A rendered run is well formed when it has a format and an inline id; the
  run that \<open>getInlineContents\<close> builds of the child at position \<open>k\<close> is the object
  literal of the callback.\<close>

definition wellFormed :: "InlineElement \<Rightarrow> bool" where
  "wellFormed e = (truthy (formatOf e) \<and> truthy (dataset_inlineId e))"

definition convertedRun :: "(jsstring option \<Rightarrow> bool) \<Rightarrow> nat \<Rightarrow> InlineElement \<Rightarrow> Inline" where
  "convertedRun isEmbedOf k e =
     \<lparr> id_inline = (case dataset_inlineId e of Some i \<Rightarrow> i | None \<Rightarrow> []),
       attributes = [],
       text_inline = (if k = 0 \<and> removeFEFF (innerText e) = [] then [FEFF]
                      else removeFEFF (innerText e)),
       type_inline = (case formatOf e of Some f \<Rightarrow> f | None \<Rightarrow> []),
       isEmbed = isEmbedOf (formatOf e) \<rparr>"

text \<open>
  The block length in the words of the specification: one per embed run, the character
  count per text run, and zero for a sole placeholder run, whose text is the sentinel.
\<close>

definition specRunLength :: "(jsstring option \<Rightarrow> bool) \<Rightarrow> InlineElement \<Rightarrow> int" where
  "specRunLength isEmbedOf t =
     (if isEmbedOf (formatOf t) then 1 else int (length (innerText t)))"

definition specBlockLength :: "(jsstring option \<Rightarrow> bool) \<Rightarrow> InlineElement list \<Rightarrow> int" where
  "specBlockLength isEmbedOf cs =
     (case cs of
        [t] \<Rightarrow> if \<not> isEmbedOf (formatOf t) \<and> innerText t = [FEFF] then 0
               else specRunLength isEmbedOf t
      | _ \<Rightarrow> sum_list (map (specRunLength isEmbedOf) cs))"

text \<open>Clamping an argument to a range, in the words of the specification.\<close>

definition clampTo :: "int \<Rightarrow> int \<Rightarrow> int \<Rightarrow> int" where
  "clampTo lo hi x = max lo (min hi x)"

text \<open>Concrete runs, rendered runs and an \<open>isEmbed\<close> under which every format but
  \<open>TEXT\<close> is an embed, for the instances below.\<close>

definition textRun :: "string \<Rightarrow> string \<Rightarrow> Inline" where
  "textRun i t = \<lparr> id_inline = js i, attributes = [], text_inline = js t,
                   type_inline = js ''TEXT'', isEmbed = False \<rparr>"

definition embedRun :: "string \<Rightarrow> Inline" where
  "embedRun i = \<lparr> id_inline = js i, attributes = [], text_inline = js ''img'',
                  type_inline = js ''IMAGE'', isEmbed = True \<rparr>"

definition sampleIsEmbed :: "jsstring option \<Rightarrow> bool" where
  "sampleIsEmbed f = (f \<noteq> None \<and> f \<noteq> Some (js ''TEXT''))"

definition rendered :: "string \<Rightarrow> string \<Rightarrow> jsstring \<Rightarrow> InlineElement" where
  "rendered f i t =
     \<lparr> dataset_format = Some (js f), dataset_inlineId = Some (js i), innerText = t,
       firstChild = (if t = [] then None else Some TextNode) \<rparr>"

definition noDocument :: Document where
  "noDocument = (\<lambda>blockId. None)"

section \<open>Lemmas on strings and lengths\<close>

lemma slice_0_take: "0 \<le> d \<Longrightarrow> slice s 0 d = take (nat d) s"
  by (auto simp: slice_def relativeIndex_def Let_def min_def)

lemma sliceFrom_drop: "0 \<le> k \<Longrightarrow> sliceFrom s k = drop (nat k) s"
  by (auto simp: sliceFrom_def slice_def relativeIndex_def Let_def min_def)

lemma inlineLength_nonneg: "0 \<le> inlineLength c"
  by (simp add: inlineLength_def)

lemma contentsLength_nonneg: "0 \<le> contentsLength cs"
  by (induction cs) (simp_all add: contentsLength_def inlineLength_nonneg)

lemma contentsLength_Cons: "contentsLength (c # cs) = inlineLength c + contentsLength cs"
  by (simp add: contentsLength_def)

lemma contentsLength_Nil: "contentsLength [] = 0"
  by (simp add: contentsLength_def)

lemma contentsLength_append: "contentsLength (xs @ ys) = contentsLength xs + contentsLength ys"
  by (simp add: contentsLength_def)

section \<open>Runs that the deletion loop passes over\<close>

text \<open>
  A run is passed over, and pushed as it is, when nothing of the length is left or when
  the index lies outside the run.
\<close>

lemma deleteStep_skip:
  "remaining s \<le> 0 \<or> i < cumulativeLength s \<or> cumulativeLength s + inlineLength c \<le> i \<Longrightarrow>
   deleteStep i s c = \<lparr> destContents = destContents s @ [c],
          cumulativeLength = cumulativeLength s + inlineLength c,
          remaining = remaining s \<rparr>"
  by (auto simp: deleteStep_def Let_def)

lemma delete_foldl_skip:
  "remaining s \<le> 0 \<or> i < cumulativeLength s \<or> cumulativeLength s + contentsLength cs \<le> i \<Longrightarrow>
   foldl (deleteStep i) s cs = \<lparr> destContents = destContents s @ cs,
          cumulativeLength = cumulativeLength s + contentsLength cs,
          remaining = remaining s \<rparr>"
proof (induction cs arbitrary: s)
  case Nil
  then show ?case by (simp add: contentsLength_Nil)
next
  case (Cons c cs)
  have nn: "0 \<le> inlineLength c" "0 \<le> contentsLength cs"
    by (simp_all add: inlineLength_nonneg contentsLength_nonneg)
  from Cons.prems nn have st: "deleteStep i s c = \<lparr> destContents = destContents s @ [c],
          cumulativeLength = cumulativeLength s + inlineLength c,
          remaining = remaining s \<rparr>"
    by (intro deleteStep_skip) (auto simp: contentsLength_Cons)
  from Cons.prems nn show ?case
    by (simp add: st contentsLength_Cons) (subst Cons.IH, auto)
qed

lemma deleteStep_runs:
  "r \<in> set (destContents (deleteStep i s c)) \<Longrightarrow>
   r \<in> set (destContents s) \<or> r = c \<or> (\<exists>t. r = c\<lparr>text_inline := t\<rparr>)"
  by (auto simp: deleteStep_def Let_def split: if_splits)

lemma delete_foldl_runs:
  "r \<in> set (destContents (foldl (deleteStep i) s cs)) \<Longrightarrow>
   r \<in> set (destContents s) \<or> (\<exists>q\<in>set cs. r = q \<or> (\<exists>t. r = q\<lparr>text_inline := t\<rparr>))"
proof (induction cs arbitrary: s)
  case Nil
  then show ?case by simp
next
  case (Cons c cs)
  from Cons.prems have "r \<in> set (destContents (foldl (deleteStep i) (deleteStep i s c) cs))"
    by simp
  from Cons.IH[OF this] show ?case
    using deleteStep_runs[of r i s c] by auto
qed

section \<open>Runs that the split loop passes over\<close>

text \<open>
  A run that does not hold the index goes whole to the first part while the remaining
  length is positive, and to the second part otherwise.
\<close>

lemma splitStep_skip:
  "i < cumulativeLengthS s \<or> cumulativeLengthS s + inlineLength c \<le> i \<Longrightarrow>
   splitStep i s c =
     (if remainingS s > 0 then
        \<lparr> firstContents = firstContents s @ [c], lastContents = lastContents s,
          cumulativeLengthS = cumulativeLengthS s + inlineLength c, remainingS = remainingS s \<rparr>
      else
        \<lparr> firstContents = firstContents s, lastContents = lastContents s @ [c],
          cumulativeLengthS = cumulativeLengthS s + inlineLength c, remainingS = remainingS s \<rparr>)"
  by (auto simp: splitStep_def Let_def)

lemma split_foldl_skip:
  "i < cumulativeLengthS s \<or> cumulativeLengthS s + contentsLength cs \<le> i \<Longrightarrow>
   foldl (splitStep i) s cs =
     (if remainingS s > 0 then
        \<lparr> firstContents = firstContents s @ cs, lastContents = lastContents s,
          cumulativeLengthS = cumulativeLengthS s + contentsLength cs, remainingS = remainingS s \<rparr>
      else
        \<lparr> firstContents = firstContents s, lastContents = lastContents s @ cs,
          cumulativeLengthS = cumulativeLengthS s + contentsLength cs, remainingS = remainingS s \<rparr>)"
proof (induction cs arbitrary: s)
  case Nil
  then show ?case by (simp add: contentsLength_Nil)
next
  case (Cons c cs)
  have nn: "0 \<le> inlineLength c" "0 \<le> contentsLength cs"
    by (simp_all add: inlineLength_nonneg contentsLength_nonneg)
  from Cons.prems nn have c: "i < cumulativeLengthS s \<or> cumulativeLengthS s + inlineLength c \<le> i"
    by (auto simp: contentsLength_Cons)
  show ?case
  proof (cases "remainingS s > 0")
    case True
    with c have st: "splitStep i s c = \<lparr> firstContents = firstContents s @ [c], lastContents = lastContents s,
          cumulativeLengthS = cumulativeLengthS s + inlineLength c, remainingS = remainingS s \<rparr>"
      by (simp add: splitStep_skip)
    from Cons.prems nn True show ?thesis
      by (simp add: st contentsLength_Cons) (subst Cons.IH, auto)
  next
    case False
    with c have st: "splitStep i s c = \<lparr> firstContents = firstContents s, lastContents = lastContents s @ [c],
          cumulativeLengthS = cumulativeLengthS s + inlineLength c, remainingS = remainingS s \<rparr>"
      by (simp add: splitStep_skip)
    from Cons.prems nn False show ?thesis
      by (simp add: st contentsLength_Cons) (subst Cons.IH, auto)
  qed
qed

lemma splitStep_runs:
  "r \<in> set (firstContents (splitStep i s c)) \<union> set (lastContents (splitStep i s c)) \<Longrightarrow>
   r \<in> set (firstContents s) \<union> set (lastContents s) \<or> r = c \<or> (\<exists>t. r = c\<lparr>text_inline := t\<rparr>)"
  by (auto simp: splitStep_def Let_def split: if_splits)

lemma split_foldl_runs:
  "r \<in> set (firstContents (foldl (splitStep i) s cs)) \<union> set (lastContents (foldl (splitStep i) s cs)) \<Longrightarrow>
   r \<in> set (firstContents s) \<union> set (lastContents s)
     \<or> (\<exists>q\<in>set cs. r = q \<or> (\<exists>t. r = q\<lparr>text_inline := t\<rparr>))"
proof (induction cs arbitrary: s)
  case Nil
  then show ?case by simp
next
  case (Cons c cs)
  from Cons.prems have "r \<in> set (firstContents (foldl (splitStep i) (splitStep i s c) cs))
      \<union> set (lastContents (foldl (splitStep i) (splitStep i s c) cs))"
    by simp
  from Cons.IH[OF this] show ?case
    using splitStep_runs[of r i s c] by auto
qed

text \<open>Splitting at a run boundary with no discarded characters.\<close>

lemma split_foldl_at_boundary:
  "(remainingS s = 0 \<and> i = cumulativeLengthS s) \<or> (remainingS s \<le> 0 \<and> i < cumulativeLengthS s) \<Longrightarrow>
   firstContents (foldl (splitStep i) s cs) = firstContents s \<and>
   lastContents (foldl (splitStep i) s cs) = lastContents s @ cs"
proof (induction cs arbitrary: s)
  case Nil
  then show ?case by simp
next
  case (Cons c cs)
  have nn: "0 \<le> inlineLength c" by (simp add: inlineLength_nonneg)
  let ?s' = "splitStep i s c"
  have f: "firstContents ?s' = firstContents s" and l: "lastContents ?s' = lastContents s @ [c]"
    and inv: "(remainingS ?s' = 0 \<and> i = cumulativeLengthS ?s') \<or> (remainingS ?s' \<le> 0 \<and> i < cumulativeLengthS ?s')"
    using Cons.prems nn
    by (auto simp: splitStep_def Let_def slice_0_take sliceFrom_drop inlineLength_def split: if_splits)
  from Cons.IH[OF inv] f l show ?case by simp
qed

lemma split_zero_boundary:
  assumes "index = contentsLength pre"
  shows "splitInlineContents (pre @ post) index 0 = ([], pre @ post)"
proof -
  let ?s0 = "\<lparr> firstContents = [], lastContents = [], cumulativeLengthS = 0, remainingS = 0 \<rparr>"
  have pre: "foldl (splitStep index) ?s0 pre =
      \<lparr> firstContents = [], lastContents = pre, cumulativeLengthS = contentsLength pre, remainingS = 0 \<rparr>"
    using assms by (subst split_foldl_skip) simp_all
  have "firstContents (foldl (splitStep index) (foldl (splitStep index) ?s0 pre) post) = [] \<and>
        lastContents (foldl (splitStep index) (foldl (splitStep index) ?s0 pre) post) = pre @ post"
    unfolding pre
    using assms split_foldl_at_boundary[of "\<lparr> firstContents = [], lastContents = pre,
      cumulativeLengthS = contentsLength pre, remainingS = 0 \<rparr>" index post]
    by simp
  then show ?thesis
    by (simp add: splitInlineContents_def splitLoop_def Let_def)
qed

lemma split_zero_interior:
  assumes "\<not> isEmbed r" and "index = contentsLength pre + d" and "0 < d"
    and "d < int (length (text_inline r))"
  shows "splitInlineContents (pre @ r # post) index 0 =
           ([r\<lparr>text_inline := take (nat d) (text_inline r)\<rparr>],
            pre @ r\<lparr>text_inline := drop (nat d) (text_inline r)\<rparr> # post)"
proof -
  let ?s0 = "\<lparr> firstContents = [], lastContents = [], cumulativeLengthS = 0, remainingS = 0 \<rparr>"
  have pre: "foldl (splitStep index) ?s0 pre =
      \<lparr> firstContents = [], lastContents = pre, cumulativeLengthS = contentsLength pre, remainingS = 0 \<rparr>"
    using assms by (subst split_foldl_skip) simp_all
  let ?s1 = "\<lparr> firstContents = [], lastContents = pre, cumulativeLengthS = contentsLength pre, remainingS = 0 \<rparr>"
  have step: "splitStep index ?s1 r =
      \<lparr> firstContents = [r\<lparr>text_inline := take (nat d) (text_inline r)\<rparr>],
        lastContents = pre @ [r\<lparr>text_inline := drop (nat d) (text_inline r)\<rparr>],
        cumulativeLengthS = contentsLength pre + inlineLength r, remainingS = 0 \<rparr>"
  proof -
    from assms have "nat d < length (text_inline r)" "0 < nat d" "text_inline r \<noteq> []" by auto
    with assms show ?thesis
      by (simp add: splitStep_def Let_def slice_0_take sliceFrom_drop inlineLength_def)
  qed
  have post: "firstContents (foldl (splitStep index) (splitStep index ?s1 r) post)
                = [r\<lparr>text_inline := take (nat d) (text_inline r)\<rparr>] \<and>
              lastContents (foldl (splitStep index) (splitStep index ?s1 r) post)
                = (pre @ [r\<lparr>text_inline := drop (nat d) (text_inline r)\<rparr>]) @ post"
    unfolding step
    using assms split_foldl_at_boundary[of "\<lparr> firstContents = [r\<lparr>text_inline := take (nat d) (text_inline r)\<rparr>],
        lastContents = pre @ [r\<lparr>text_inline := drop (nat d) (text_inline r)\<rparr>],
        cumulativeLengthS = contentsLength pre + inlineLength r, remainingS = 0 \<rparr>" index post]
    by (simp add: inlineLength_def)
  show ?thesis
    using post by (simp add: splitInlineContents_def splitLoop_def Let_def pre)
qed

section \<open>Deletion with an over-long length\<close>

text \<open>
  A length that reaches the end of the run that holds the index, or goes beyond it,
  removes the text of that run from the index on; how far beyond makes no difference.
\<close>

lemma deleteStep_to_end:
  assumes "\<not> isEmbed c" and "cumulativeLength s \<le> i" and "i < cumulativeLength s + inlineLength c"
    and "0 < remaining s"
    and "int (length (text_inline c)) - (i - cumulativeLength s) \<le> remaining s"
  shows "destContents (deleteStep i s c) =
          (if take (nat (i - cumulativeLength s)) (text_inline c) = [] then destContents s
           else destContents s @ [c\<lparr>text_inline := take (nat (i - cumulativeLength s)) (text_inline c)\<rparr>])"
proof -
  let ?d = "i - cumulativeLength s"
  let ?tl = "int (length (text_inline c)) - ?d"
  have e: "sliceFrom (text_inline c) (int (length (text_inline c))) = []"
    by (simp add: sliceFrom_drop)
  have d0: "0 \<le> ?d" using assms by simp
  show ?thesis
  proof (cases "remaining s = ?tl")
    case True
    have "?d + remaining s = int (length (text_inline c))" using True by simp
    with assms d0 True show ?thesis
      by (simp add: deleteStep_def Let_def slice_0_take e)
  next
    case False
    with assms have "\<not> (?tl - remaining s \<ge> 0)" by simp
    with assms d0 show ?thesis
      by (simp add: deleteStep_def Let_def slice_0_take e)
  qed
qed

lemma delete_foldl_overlong:
  assumes "destContents s = destContents s'" and "cumulativeLength s = cumulativeLength s'"
    and "0 < remaining s" and "0 < remaining s'"
    and "cumulativeLength s + contentsLength cs - i \<le> remaining s"
    and "cumulativeLength s + contentsLength cs - i \<le> remaining s'"
  shows "destContents (foldl (deleteStep i) s cs) = destContents (foldl (deleteStep i) s' cs)"
  using assms
proof (induction cs arbitrary: s s')
  case Nil
  then show ?case by simp
next
  case (Cons c cs)
  have nn: "0 \<le> inlineLength c" "0 \<le> contentsLength cs"
    by (simp_all add: inlineLength_nonneg contentsLength_nonneg)
  show ?case
  proof (cases "cumulativeLength s \<le> i \<and> i < cumulativeLength s + inlineLength c")
    case False
    then have sk: "i < cumulativeLength s \<or> cumulativeLength s + inlineLength c \<le> i" by auto
    then have sk': "i < cumulativeLength s' \<or> cumulativeLength s' + inlineLength c \<le> i"
      using Cons.prems by simp
    have a: "deleteStep i s c = \<lparr> destContents = destContents s @ [c],
          cumulativeLength = cumulativeLength s + inlineLength c, remaining = remaining s \<rparr>"
      using sk by (intro deleteStep_skip) simp
    have b: "deleteStep i s' c = \<lparr> destContents = destContents s' @ [c],
          cumulativeLength = cumulativeLength s' + inlineLength c, remaining = remaining s' \<rparr>"
      using sk' by (intro deleteStep_skip) simp
    have "destContents (foldl (deleteStep i) (deleteStep i s c) cs)
        = destContents (foldl (deleteStep i) (deleteStep i s' c) cs)"
      unfolding a b using Cons.prems by (intro Cons.IH) (simp_all add: contentsLength_Cons)
    then show ?thesis by simp
  next
    case True
    let ?a = "deleteStep i s c" and ?b = "deleteStep i s' c"
    have d: "destContents ?a = destContents ?b"
    proof (cases "isEmbed c")
      case True
      with \<open>cumulativeLength s \<le> i \<and> i < cumulativeLength s + inlineLength c\<close> Cons.prems
      show ?thesis by (simp add: deleteStep_def Let_def)
    next
      case False
      have "int (length (text_inline c)) - (i - cumulativeLength s) \<le> remaining s"
           "int (length (text_inline c)) - (i - cumulativeLength s') \<le> remaining s'"
        using Cons.prems nn False by (simp_all add: contentsLength_Cons inlineLength_def)
      with False \<open>cumulativeLength s \<le> i \<and> i < cumulativeLength s + inlineLength c\<close> Cons.prems
      show ?thesis
        by (simp add: deleteStep_to_end)
    qed
    have c: "cumulativeLength ?a = cumulativeLength s + inlineLength c"
            "cumulativeLength ?b = cumulativeLength s + inlineLength c"
      using Cons.prems by (auto simp: deleteStep_def Let_def)
    have "foldl (deleteStep i) ?a cs = \<lparr> destContents = destContents ?a @ cs,
          cumulativeLength = cumulativeLength ?a + contentsLength cs, remaining = remaining ?a \<rparr>"
      using True c by (intro delete_foldl_skip) simp
    moreover have "foldl (deleteStep i) ?b cs = \<lparr> destContents = destContents ?b @ cs,
          cumulativeLength = cumulativeLength ?b + contentsLength cs, remaining = remaining ?b \<rparr>"
      using True c by (intro delete_foldl_skip) simp
    ultimately show ?thesis using d by simp
  qed
qed

lemma delete_unchanged:
  assumes "len \<le> 0 \<or> index < 0 \<or> contentsLength cs \<le> index"
  shows "deleteInlineContents newInline cs index len =
           (if cs = [] then [newInline] else cs)"
proof -
  have "deleteLoop cs index len = \<lparr> destContents = cs,
          cumulativeLength = contentsLength cs, remaining = len \<rparr>"
    unfolding deleteLoop_def using assms by (subst delete_foldl_skip) auto
  then show ?thesis
    by (cases cs) (simp_all add: deleteInlineContents_def)
qed

lemma delete_length_clamped:
  "deleteInlineContents newInline cs index len =
   deleteInlineContents newInline cs index (min len (contentsLength cs - index))"
proof (cases "len \<le> contentsLength cs - index")
  case True
  then show ?thesis by (simp add: min_def)
next
  case False
  then have m: "min len (contentsLength cs - index) = contentsLength cs - index"
    by simp
  show ?thesis
  proof (cases "contentsLength cs \<le> index")
    case True
    then show ?thesis by (simp add: delete_unchanged)
  next
    case False
    have "destContents (deleteLoop cs index len)
        = destContents (deleteLoop cs index (contentsLength cs - index))"
      unfolding deleteLoop_def using False \<open>\<not> len \<le> contentsLength cs - index\<close>
      by (intro delete_foldl_overlong) simp_all
    then show ?thesis by (simp add: m deleteInlineContents_def)
  qed
qed

section \<open>Deletion inside the run that holds the index\<close>

text \<open>
  With a positive length, an index at an embed drops the embed, takes one unit of the
  length whatever the length is, and leaves every other run as it is.  An index
  inside a text run removes characters of that run only, up to the end of the run at
  most, and leaves every other run as it is.
\<close>

lemma deleteLoop_at_embed:
  assumes "isEmbed r" and "index = contentsLength pre" and "0 < len"
  shows "deleteLoop (pre @ r # post) index len =
           \<lparr> destContents = pre @ post,
             cumulativeLength = contentsLength pre + 1 + contentsLength post,
             remaining = len - 1 \<rparr>"
proof -
  let ?s0 = "\<lparr> destContents = [], cumulativeLength = 0, remaining = len \<rparr>"
  have pre: "foldl (deleteStep index) ?s0 pre =
      \<lparr> destContents = pre, cumulativeLength = contentsLength pre, remaining = len \<rparr>"
    using assms by (subst delete_foldl_skip) simp_all
  have step: "deleteStep index \<lparr> destContents = pre, cumulativeLength = contentsLength pre,
                  remaining = len \<rparr> r =
      \<lparr> destContents = pre, cumulativeLength = contentsLength pre + 1, remaining = len - 1 \<rparr>"
    using assms by (simp add: deleteStep_def Let_def inlineLength_def)
  have post: "foldl (deleteStep index)
      \<lparr> destContents = pre, cumulativeLength = contentsLength pre + 1, remaining = len - 1 \<rparr> post =
      \<lparr> destContents = pre @ post, cumulativeLength = contentsLength pre + 1 + contentsLength post,
        remaining = len - 1 \<rparr>"
    using assms by (subst delete_foldl_skip) simp_all
  have "deleteLoop (pre @ r # post) index len =
      foldl (deleteStep index) (deleteStep index (foldl (deleteStep index) ?s0 pre) r) post"
    by (simp add: deleteLoop_def)
  then show ?thesis
    by (simp only: pre step post)
qed

lemma deleteStep_in_text_run:
  assumes "\<not> isEmbed c" and "cumulativeLength s \<le> i"
    and "i < cumulativeLength s + int (length (text_inline c))" and "0 < remaining s"
  shows "destContents (deleteStep i s c) =
          destContents s @
          (if take (nat (i - cumulativeLength s)) (text_inline c)
               @ drop (nat (i - cumulativeLength s
                     + min (remaining s) (int (length (text_inline c)) - (i - cumulativeLength s))))
                   (text_inline c) = []
           then []
           else [c\<lparr>text_inline := take (nat (i - cumulativeLength s)) (text_inline c)
               @ drop (nat (i - cumulativeLength s
                     + min (remaining s) (int (length (text_inline c)) - (i - cumulativeLength s))))
                   (text_inline c)\<rparr>])"
proof -
  define a where "a = take (nat (i - cumulativeLength s)) (text_inline c)"
  define b where "b = drop (nat (i - cumulativeLength s
                     + min (remaining s) (int (length (text_inline c)) - (i - cumulativeLength s))))
                   (text_inline c)"
  have dl: "(if int (length (text_inline c)) - (i - cumulativeLength s) - remaining s \<ge> 0
             then remaining s else int (length (text_inline c)) - (i - cumulativeLength s))
            = min (remaining s) (int (length (text_inline c)) - (i - cumulativeLength s))"
    by (simp add: min_def)
  have s1: "slice (text_inline c) 0 (i - cumulativeLength s) = a"
    using assms by (simp add: a_def slice_0_take)
  have s2: "sliceFrom (text_inline c) (i - cumulativeLength s
              + min (remaining s) (int (length (text_inline c)) - (i - cumulativeLength s))) = b"
    using assms by (simp add: b_def sliceFrom_drop)
  have cond: "(remaining s > 0 \<and> i \<ge> cumulativeLength s
      \<and> i < cumulativeLength s + inlineLength c) = True"
    using assms by (simp add: inlineLength_def)
  have ne: "(\<not> isEmbed c) = True" using assms by simp
  have "destContents (deleteStep i s c) =
          (if length (a @ b) > 0 then destContents s @ [c\<lparr>text_inline := a @ b\<rparr>]
           else destContents s)"
    unfolding deleteStep_def Let_def cond ne dl s1 s2 by simp
  also have "\<dots> = destContents s @ (if a @ b = [] then [] else [c\<lparr>text_inline := a @ b\<rparr>])"
    by (cases "a @ b") simp_all
  finally show ?thesis unfolding a_def b_def .
qed

lemma deleteLoop_in_text_run:
  assumes "\<not> isEmbed r" and "index = contentsLength pre + d" and "0 \<le> d"
    and "d < int (length (text_inline r))" and "0 < len"
  shows "destContents (deleteLoop (pre @ r # post) index len) =
           pre @
           (if take (nat d) (text_inline r)
                 @ drop (nat (d + min len (int (length (text_inline r)) - d))) (text_inline r) = []
            then []
            else [r\<lparr>text_inline := take (nat d) (text_inline r)
                 @ drop (nat (d + min len (int (length (text_inline r)) - d))) (text_inline r)\<rparr>])
           @ post"
proof -
  let ?s0 = "\<lparr> destContents = [], cumulativeLength = 0, remaining = len \<rparr>"
  have pre: "foldl (deleteStep index) ?s0 pre =
      \<lparr> destContents = pre, cumulativeLength = contentsLength pre, remaining = len \<rparr>"
    using assms by (subst delete_foldl_skip) simp_all
  let ?s1 = "\<lparr> destContents = pre, cumulativeLength = contentsLength pre, remaining = len \<rparr>"
  have d: "destContents (deleteStep index ?s1 r) =
           pre @
           (if take (nat d) (text_inline r)
                 @ drop (nat (d + min len (int (length (text_inline r)) - d))) (text_inline r) = []
            then []
            else [r\<lparr>text_inline := take (nat d) (text_inline r)
                 @ drop (nat (d + min len (int (length (text_inline r)) - d))) (text_inline r)\<rparr>])"
  proof -
    have e: "index - cumulativeLength ?s1 = d" "remaining ?s1 = len" "destContents ?s1 = pre"
      using assms by simp_all
    have "cumulativeLength ?s1 \<le> index" "index < cumulativeLength ?s1 + int (length (text_inline r))"
      "0 < remaining ?s1"
      using assms by simp_all
    from deleteStep_in_text_run[OF assms(1) this] show ?thesis
      unfolding e .
  qed
  have c: "index < cumulativeLength (deleteStep index ?s1 r)"
    using assms by (simp add: deleteStep_def Let_def inlineLength_def)
  have "foldl (deleteStep index) (deleteStep index ?s1 r) post =
      \<lparr> destContents = destContents (deleteStep index ?s1 r) @ post,
        cumulativeLength = cumulativeLength (deleteStep index ?s1 r) + contentsLength post,
        remaining = remaining (deleteStep index ?s1 r) \<rparr>"
    using c by (intro delete_foldl_skip) simp
  then show ?thesis
    by (simp add: deleteLoop_def pre d)
qed

section \<open>Lemmas on the rendered block\<close>

lemma blockLengthLoop_sum:
  "blockLengthLoop isE cs cum =
     cum + sum_list (map (\<lambda>t. if isE (formatOf t) then 1
                               else int (length (filter (\<lambda>u. u \<noteq> FEFF) (innerText t)))) cs)"
  by (induction cs arbitrary: cum) (simp_all add: Let_def removeFEFF_def)

lemma reduceInline_wellFormed:
  "wellFormed e \<Longrightarrow> contents (reduceInline isE s e k) = contents s @ [convertedRun isE k e]"
  by (auto simp: wellFormed_def truthy_def reduceInline_def convertedRun_def Let_def
           split: option.splits)

lemma reduceInline_malformed:
  "\<not> wellFormed e \<Longrightarrow> reduceInline isE s e k = s"
  by (auto simp: wellFormed_def truthy_def reduceInline_def Let_def split: option.splits)

lemma reduceChildren_contents:
  "contents (reduceChildren isE cs k s) =
     contents s @ map (\<lambda>(j, e). convertedRun isE j e)
                    (filter (\<lambda>(j, e). wellFormed e) (enumerate k cs))"
proof (induction cs arbitrary: k s)
  case Nil
  then show ?case by simp
next
  case (Cons e cs)
  show ?case
    by (cases "wellFormed e")
       (simp_all add: Cons.IH reduceInline_wellFormed reduceInline_malformed)
qed

lemma nativeLength_Cons: "nativeLength isE (t # ts) = nativeRunLength isE t + nativeLength isE ts"
  by (simp add: nativeLength_def)

lemma nativeRunLength_nonneg: "0 \<le> nativeRunLength isE t"
  by (simp add: nativeRunLength_def)

lemma nativeLength_nonneg: "0 \<le> nativeLength isE ts"
  by (induction ts) (simp_all add: nativeLength_def nativeRunLength_nonneg)

lemma nativeLength_unformatted:
  "\<forall>t\<in>set ts. \<not> truthy (formatOf t) \<Longrightarrow> nativeLength isE ts = 0"
  by (induction ts) (simp_all add: nativeLength_def nativeRunLength_def)

lemma nativeIndexLoop_beyond:
  "cum + nativeLength isE cs < idx \<Longrightarrow> nativeIndexLoop isE cs i idx cum = None"
proof (induction cs arbitrary: i cum)
  case Nil
  then show ?case by simp
next
  case (Cons t ts)
  have nn: "0 \<le> nativeLength isE ts" by (rule nativeLength_nonneg)
  show ?case
  proof (cases "truthy (formatOf t)")
    case True
    with Cons.prems nn show ?thesis
      by (simp add: Let_def nativeLength_Cons nativeRunLength_def Cons.IH)
  next
    case False
    with Cons.prems show ?thesis
      by (simp add: Let_def nativeLength_Cons nativeRunLength_def Cons.IH)
  qed
qed

lemma nativeIndexLoop_within:
  assumes "\<forall>t\<in>set cs. truthy (formatOf t) \<longrightarrow> firstChild t \<noteq> None"
    and "\<exists>t\<in>set cs. truthy (formatOf t)"
    and "idx \<le> cum + nativeLength isE cs"
  shows "nativeIndexLoop isE cs i idx cum \<noteq> None"
  using assms
proof (induction cs arbitrary: i cum)
  case Nil
  then show ?case by simp
next
  case (Cons t ts)
  show ?case
  proof (cases "truthy (formatOf t)")
    case False
    with Cons.prems have "nativeIndexLoop isE ts (Suc i) idx cum \<noteq> None"
      by (intro Cons.IH) (auto simp: nativeLength_Cons nativeRunLength_def)
    with False show ?thesis by (simp add: Let_def)
  next
    case True
    show ?thesis
    proof (cases "idx \<le> cum + nativeRunLength isE t")
      case le: True
      with True Cons.prems show ?thesis
        by (auto simp: Let_def nativeRunLength_def)
    next
      case gt: False
      have ex: "\<exists>u\<in>set ts. truthy (formatOf u)"
      proof (rule ccontr)
        assume "\<not> ?thesis"
        then have "nativeLength isE ts = 0" by (intro nativeLength_unformatted) simp
        with gt Cons.prems(3) show False by (simp add: nativeLength_Cons)
      qed
      have "nativeIndexLoop isE ts (Suc i) idx (cum + nativeRunLength isE t) \<noteq> None"
        using Cons.prems ex by (intro Cons.IH) (auto simp: nativeLength_Cons)
      with True gt show ?thesis
        by (auto simp: Let_def nativeRunLength_def)
    qed
  qed
qed

text \<open>
  The walk returns at the first run at which its test holds, and returns nothing when
  the test holds at no run.
\<close>

lemma nativeIndexLoop_step:
  "nativeIndexLoop isE (t # ts) i idx cum =
     (if walkStopsAt isE (idx - cum) [] t
      then Some \<lparr> node = (if firstChild t = Some TextNode then FirstChildOf i else ChildAt i),
                  nativeIndex = idx - cum \<rparr>
      else nativeIndexLoop isE ts (Suc i) idx (cum + nativeRunLength isE t))"
  by (auto simp: walkStopsAt_def nativeLength_def nativeRunLength_def Let_def)

lemma walkStopsAt_Cons:
  "walkStopsAt isE idx (a # pre) t = walkStopsAt isE (idx - nativeRunLength isE a) pre t"
  by (auto simp: walkStopsAt_def nativeLength_Cons)

lemma nativeIndexLoop_None_iff:
  "(nativeIndexLoop isE cs i idx cum = None) =
   (\<forall>pre t post. cs = pre @ t # post \<longrightarrow> \<not> walkStopsAt isE (idx - cum) pre t)"
proof (induction cs arbitrary: i cum)
  case Nil
  then show ?case by simp
next
  case (Cons a cs)
  show ?case
  proof (cases "walkStopsAt isE (idx - cum) [] a")
    case True
    then have "\<exists>pre t post. a # cs = pre @ t # post \<and> walkStopsAt isE (idx - cum) pre t"
      by (intro exI[of _ "[]"] exI[of _ a] exI[of _ cs]) simp
    with True show ?thesis by (simp only: nativeIndexLoop_step if_True) blast
  next
    case False
    have "(nativeIndexLoop isE (a # cs) i idx cum = None) =
          (\<forall>pre t post. cs = pre @ t # post \<longrightarrow>
              \<not> walkStopsAt isE (idx - (cum + nativeRunLength isE a)) pre t)"
      using False by (simp only: nativeIndexLoop_step if_False Cons.IH)
    also have "\<dots> = (\<forall>pre t post. a # cs = pre @ t # post \<longrightarrow> \<not> walkStopsAt isE (idx - cum) pre t)"
    proof
      assume h: "\<forall>pre t post. cs = pre @ t # post \<longrightarrow>
              \<not> walkStopsAt isE (idx - (cum + nativeRunLength isE a)) pre t"
      show "\<forall>pre t post. a # cs = pre @ t # post \<longrightarrow> \<not> walkStopsAt isE (idx - cum) pre t"
      proof (intro allI impI)
        fix pre t post assume e: "a # cs = pre @ t # post"
        show "\<not> walkStopsAt isE (idx - cum) pre t"
        proof (cases pre)
          case Nil
          with e False show ?thesis by simp
        next
          case (Cons b pre1)
          with e have "b = a" "cs = pre1 @ t # post" by simp_all
          with h have "\<not> walkStopsAt isE (idx - (cum + nativeRunLength isE a)) pre1 t" by blast
          then show ?thesis
            using Cons \<open>b = a\<close> by (simp add: walkStopsAt_Cons algebra_simps)
        qed
      qed
    next
      assume h: "\<forall>pre t post. a # cs = pre @ t # post \<longrightarrow> \<not> walkStopsAt isE (idx - cum) pre t"
      show "\<forall>pre t post. cs = pre @ t # post \<longrightarrow>
              \<not> walkStopsAt isE (idx - (cum + nativeRunLength isE a)) pre t"
      proof (intro allI impI)
        fix pre t post assume "cs = pre @ t # post"
        then have "a # cs = (a # pre) @ t # post" by simp
        with h have "\<not> walkStopsAt isE (idx - cum) (a # pre) t" by blast
        then show "\<not> walkStopsAt isE (idx - (cum + nativeRunLength isE a)) pre t"
          by (simp add: walkStopsAt_Cons algebra_simps)
      qed
    qed
    finally show ?thesis .
  qed
qed

lemma nativeIndexLoop_Some_iff:
  "(nativeIndexLoop isE cs i idx cum = Some p) =
   (\<exists>pre t post. cs = pre @ t # post \<and> walkStopsAt isE (idx - cum) pre t
      \<and> (\<forall>pre' u post'. pre = pre' @ u # post' \<longrightarrow> \<not> walkStopsAt isE (idx - cum) pre' u)
      \<and> p = \<lparr> node = (if firstChild t = Some TextNode then FirstChildOf (i + length pre)
                        else ChildAt (i + length pre)),
               nativeIndex = idx - cum - nativeLength isE pre \<rparr>)"
proof (induction cs arbitrary: i cum)
  case Nil
  then show ?case by simp
next
  case (Cons a cs)
  show ?case
  proof (cases "walkStopsAt isE (idx - cum) [] a")
    case True
    show ?thesis
    proof
      assume "nativeIndexLoop isE (a # cs) i idx cum = Some p"
      with True have p: "p = \<lparr> node = (if firstChild a = Some TextNode then FirstChildOf i else ChildAt i),
                  nativeIndex = idx - cum \<rparr>"
        by (simp only: nativeIndexLoop_step if_True) simp
      show "\<exists>pre t post. a # cs = pre @ t # post \<and> walkStopsAt isE (idx - cum) pre t
      \<and> (\<forall>pre' u post'. pre = pre' @ u # post' \<longrightarrow> \<not> walkStopsAt isE (idx - cum) pre' u)
      \<and> p = \<lparr> node = (if firstChild t = Some TextNode then FirstChildOf (i + length pre)
                        else ChildAt (i + length pre)),
               nativeIndex = idx - cum - nativeLength isE pre \<rparr>"
        using True p
        by (intro exI[of _ "[]"] exI[of _ a] exI[of _ cs]) (simp add: nativeLength_def)
    next
      assume "\<exists>pre t post. a # cs = pre @ t # post \<and> walkStopsAt isE (idx - cum) pre t
      \<and> (\<forall>pre' u post'. pre = pre' @ u # post' \<longrightarrow> \<not> walkStopsAt isE (idx - cum) pre' u)
      \<and> p = \<lparr> node = (if firstChild t = Some TextNode then FirstChildOf (i + length pre)
                        else ChildAt (i + length pre)),
               nativeIndex = idx - cum - nativeLength isE pre \<rparr>"
      then obtain pre t post where e: "a # cs = pre @ t # post"
        and f: "\<forall>pre' u post'. pre = pre' @ u # post' \<longrightarrow> \<not> walkStopsAt isE (idx - cum) pre' u"
        and p: "p = \<lparr> node = (if firstChild t = Some TextNode then FirstChildOf (i + length pre)
                        else ChildAt (i + length pre)),
               nativeIndex = idx - cum - nativeLength isE pre \<rparr>"
        by blast
      have "pre = []"
      proof (cases pre)
        case Nil then show ?thesis .
      next
        case (Cons b pre1)
        with e have "b = a" by simp
        with Cons have "pre = [] @ a # pre1" by simp
        with f have "\<not> walkStopsAt isE (idx - cum) [] a" by blast
        with True show ?thesis by simp
      qed
      with e p have "t = a" "p = \<lparr> node = (if firstChild a = Some TextNode then FirstChildOf i else ChildAt i),
                  nativeIndex = idx - cum \<rparr>"
        by (simp_all add: nativeLength_def)
      with True show "nativeIndexLoop isE (a # cs) i idx cum = Some p"
        by (simp only: nativeIndexLoop_step if_True)
    qed
  next
    case False
    let ?c = "cum + nativeRunLength isE a"
    have st: "nativeIndexLoop isE (a # cs) i idx cum = nativeIndexLoop isE cs (Suc i) idx ?c"
      using False by (simp only: nativeIndexLoop_step if_False)
    show ?thesis
    proof
      assume "nativeIndexLoop isE (a # cs) i idx cum = Some p"
      then have "nativeIndexLoop isE cs (Suc i) idx ?c = Some p" by (simp only: st)
      then obtain pre t post where e: "cs = pre @ t # post"
        and w: "walkStopsAt isE (idx - ?c) pre t"
        and f: "\<forall>pre' u post'. pre = pre' @ u # post' \<longrightarrow> \<not> walkStopsAt isE (idx - ?c) pre' u"
        and p: "p = \<lparr> node = (if firstChild t = Some TextNode then FirstChildOf (Suc i + length pre)
                        else ChildAt (Suc i + length pre)),
               nativeIndex = idx - ?c - nativeLength isE pre \<rparr>"
        unfolding Cons.IH by blast
      have f': "\<forall>pre' u post'. a # pre = pre' @ u # post' \<longrightarrow> \<not> walkStopsAt isE (idx - cum) pre' u"
      proof (intro allI impI)
        fix pre' u post' assume d: "a # pre = pre' @ u # post'"
        show "\<not> walkStopsAt isE (idx - cum) pre' u"
        proof (cases pre')
          case Nil
          with d False show ?thesis by simp
        next
          case (Cons b pre1)
          with d have "b = a" "pre = pre1 @ u # post'" by simp_all
          with f have "\<not> walkStopsAt isE (idx - ?c) pre1 u" by blast
          then show ?thesis using Cons \<open>b = a\<close> by (simp add: walkStopsAt_Cons algebra_simps)
        qed
      qed
      show "\<exists>pre t post. a # cs = pre @ t # post \<and> walkStopsAt isE (idx - cum) pre t
      \<and> (\<forall>pre' u post'. pre = pre' @ u # post' \<longrightarrow> \<not> walkStopsAt isE (idx - cum) pre' u)
      \<and> p = \<lparr> node = (if firstChild t = Some TextNode then FirstChildOf (i + length pre)
                        else ChildAt (i + length pre)),
               nativeIndex = idx - cum - nativeLength isE pre \<rparr>"
        apply (rule exI[of _ "a # pre"], rule exI[of _ t], rule exI[of _ post])
        using e w f' p by (simp add: walkStopsAt_Cons nativeLength_Cons algebra_simps)
    next
      assume "\<exists>pre t post. a # cs = pre @ t # post \<and> walkStopsAt isE (idx - cum) pre t
      \<and> (\<forall>pre' u post'. pre = pre' @ u # post' \<longrightarrow> \<not> walkStopsAt isE (idx - cum) pre' u)
      \<and> p = \<lparr> node = (if firstChild t = Some TextNode then FirstChildOf (i + length pre)
                        else ChildAt (i + length pre)),
               nativeIndex = idx - cum - nativeLength isE pre \<rparr>"
      then obtain pre t post where e: "a # cs = pre @ t # post"
        and w: "walkStopsAt isE (idx - cum) pre t"
        and f: "\<forall>pre' u post'. pre = pre' @ u # post' \<longrightarrow> \<not> walkStopsAt isE (idx - cum) pre' u"
        and p: "p = \<lparr> node = (if firstChild t = Some TextNode then FirstChildOf (i + length pre)
                        else ChildAt (i + length pre)),
               nativeIndex = idx - cum - nativeLength isE pre \<rparr>"
        by blast
      obtain pre1 where pre: "pre = a # pre1" and cs: "cs = pre1 @ t # post"
      proof (cases pre)
        case Nil
        with e w False show ?thesis by simp
      next
        case (Cons b pre1)
        with e have "pre = a # pre1" "cs = pre1 @ t # post" by simp_all
        then show ?thesis by (rule that)
      qed
      have w1: "walkStopsAt isE (idx - ?c) pre1 t"
        using w pre by (simp add: walkStopsAt_Cons algebra_simps)
      have f1: "\<forall>pre' u post'. pre1 = pre' @ u # post' \<longrightarrow> \<not> walkStopsAt isE (idx - ?c) pre' u"
      proof (intro allI impI)
        fix pre' u post' assume "pre1 = pre' @ u # post'"
        then have "pre = (a # pre') @ u # post'" using pre by simp
        with f have "\<not> walkStopsAt isE (idx - cum) (a # pre') u" by blast
        then show "\<not> walkStopsAt isE (idx - ?c) pre' u"
          by (simp add: walkStopsAt_Cons algebra_simps)
      qed
      have p1: "p = \<lparr> node = (if firstChild t = Some TextNode then FirstChildOf (Suc i + length pre1)
                        else ChildAt (Suc i + length pre1)),
               nativeIndex = idx - ?c - nativeLength isE pre1 \<rparr>"
        using p pre by (simp add: nativeLength_Cons algebra_simps)
      have "nativeIndexLoop isE cs (Suc i) idx ?c = Some p"
        unfolding Cons.IH using cs w1 f1 p1 by blast
      then show "nativeIndexLoop isE (a # cs) i idx cum = Some p" by (simp only: st)
    qed
  qed
qed

section \<open>Lemmas on the history stack\<close>

lemma pushFrame_bound: "length st \<le> bound \<Longrightarrow> length (pushFrame bound f st) \<le> bound"
  by (auto simp: pushFrame_def Let_def)

lemma maxStack_recordMutation: "maxStack (recordMutation h src opn now) = maxStack h"
  by (simp add: recordMutation_def Let_def split: option.splits)

lemma maxStack_undo: "maxStack (undo h) = maxStack h"
  by (simp add: undo_def)

lemma maxStack_redo: "maxStack (redo h) = maxStack h"
  by (simp add: redo_def)

lemma recordMutation_bound:
  "length (undoStack h) \<le> maxStack h \<Longrightarrow>
   length (undoStack (recordMutation h src opn now)) \<le> maxStack h"
  by (auto simp: recordMutation_def Let_def pushFrame_bound split: option.splits)

lemma undo_bound:
  "length (undoStack h) \<le> maxStack h \<Longrightarrow> length (undoStack (undo h)) \<le> maxStack h"
  by (auto simp: undo_def)

lemma redo_bound:
  "length (undoStack h) \<le> maxStack h \<Longrightarrow> length (undoStack (redo h)) \<le> maxStack h"
  by (auto simp: redo_def pushFrame_bound)

lemma maxStack_applyEvent: "maxStack (applyEvent h e) = maxStack h"
  by (cases e) (simp_all add: maxStack_recordMutation maxStack_undo maxStack_redo)

lemma applyEvent_bound:
  "length (undoStack h) \<le> maxStack h \<Longrightarrow> length (undoStack (applyEvent h e)) \<le> maxStack h"
  by (cases e) (simp_all add: recordMutation_bound undo_bound redo_bound)

lemma runHistory_bound:
  "length (undoStack h) \<le> maxStack h \<Longrightarrow>
   length (undoStack (runHistory h es)) \<le> maxStack h \<and> maxStack (runHistory h es) = maxStack h"
  unfolding runHistory_def
proof (induction es arbitrary: h)
  case Nil
  then show ?case by simp
next
  case (Cons e es)
  have a: "length (undoStack (applyEvent h e)) \<le> maxStack (applyEvent h e)"
    using applyEvent_bound[OF Cons.prems, of e] by (simp add: maxStack_applyEvent)
  from Cons.IH[OF a] show ?case by (simp add: maxStack_applyEvent)
qed

section \<open>Splitting without discarded characters\<close>

text \<open>
  C1.  The cut at 3 of the runs \<open>ab\<close>, \<open>cd\<close> lies inside the second run, and the
  run \<open>ab\<close> lies before it.  With no discarded characters the test \<open>length > 0\<close>
  of the last branch is false at every run, so the loop pushes \<open>ab\<close> to the second
  part: the parts are \<open>c\<close> and \<open>ab\<close>, \<open>d\<close>.  Joined they are not the input, and
  their texts read \<open>cabd\<close>.
\<close>

theorem splitInlineContents_runs_before_cut:
  "splitInlineContents [textRun ''a'' ''ab'', textRun ''b'' ''cd''] 3 0
     = ([textRun ''b'' ''c''], [textRun ''a'' ''ab'', textRun ''b'' ''d'']) \<and>
   concat (map text_inline
     (fst (splitInlineContents [textRun ''a'' ''ab'', textRun ''b'' ''cd''] 3 0)
        @ snd (splitInlineContents [textRun ''a'' ''ab'', textRun ''b'' ''cd''] 3 0)))
     = js ''cabd''"
  by code_simp

section \<open>Deleting\<close>

text \<open>
  C2.  Deleting two characters from index 1 of the runs \<open>ab\<close>, \<open>cd\<close> should
  remove \<open>b\<close> and \<open>c\<close>.  The loop compares every run with the unchanged start
  index, so only the run that holds the index is cut (\<open>deleteLoop_in_text_run\<close>);
  the second run is returned whole although one unit of the length is left.
\<close>

theorem deleteInlineContents_across_runs:
  "deleteInlineContents newInline [textRun ''a'' ''ab'', textRun ''b'' ''cd''] 1 2
     = [textRun ''a'' ''a'', textRun ''b'' ''cd'']"
  by code_simp

text \<open>
  C3.  \<open>deleteInlineContents\<close> never returns an empty sequence: the result has at
  least one run, and it is the single new run of \<open>createInline\<close> exactly when the
  loop has kept no run.
\<close>

theorem deleteInlineContents_never_empty:
  "1 \<le> length (deleteInlineContents newInline cs index len) \<and>
   deleteInlineContents newInline cs index len =
     (if destContents (deleteLoop cs index len) = [] then [newInline]
      else destContents (deleteLoop cs index len))"
  by (cases "destContents (deleteLoop cs index len)") (simp_all add: deleteInlineContents_def Let_def)

theorem deleteInlineContents_never_empty_witness:
  "1 \<le> length (deleteInlineContents (textRun ''n'' '''') [textRun ''a'' ''ab''] 0 2) \<and>
   deleteInlineContents (textRun ''n'' '''') [textRun ''a'' ''ab''] 0 2 = [textRun ''n'' '''']"
proof -
  have e: "destContents (deleteLoop [textRun ''a'' ''ab''] 0 2) = []" by code_simp
  show ?thesis
    using deleteInlineContents_never_empty[of "textRun ''n'' ''''" "[textRun ''a'' ''ab'']" 0 2]
    by (simp add: e)
qed

text \<open>
  C4.  The range of two characters from index 1 of the runs \<open>ab\<close>, embed overlaps
  the embed at position 2.  The embed is kept and takes nothing of the length: one
  unit is left after the loop.  This is the behaviour of C2, seen at an embed; an
  embed is dropped, for one unit, only when the index is its own position
  (\<open>deleteLoop_at_embed\<close>).
\<close>

theorem deleteInlineContents_embed_overlap:
  "deleteInlineContents newInline [textRun ''a'' ''ab'', embedRun ''e''] 1 2
     = [textRun ''a'' ''a'', embedRun ''e''] \<and>
   remaining (deleteLoop [textRun ''a'' ''ab'', embedRun ''e''] 1 2) = 1"
  by code_simp

section \<open>The length of a rendered block\<close>

text \<open>
  Claim C5 as stated fails on a text run that holds the sentinel beside other
  characters: for the single run \<open>a\<close> followed by U+FEFF the character count is 2
  and the run is no sole placeholder, yet \<open>getBlockLength\<close> returns 1.
\<close>

theorem getBlockLength_sentinel_counterexample:
  "getBlockLength sampleIsEmbed noDocument
     (ByElement (Element [rendered ''inline/text'' ''a'' (js ''a'' @ [FEFF])]))
   \<noteq> Some (specBlockLength sampleIsEmbed [rendered ''inline/text'' ''a'' (js ''a'' @ [FEFF])])"
  by code_simp

text \<open>
  C5, amended.  \<open>getBlockLength\<close> of a block that is found is the sum over the
  rendered runs of 1 for an embed and, for any other run, the number of code units of
  its text other than the sentinel U+FEFF, wherever in whichever run the sentinel
  stands; a block that is not found has no length.  So a sole placeholder run, whose
  text is the sentinel, gives the length 0.
\<close>

theorem getBlockLength_sum:
  "getBlockLength isEmbedOf doc block =
     map_option
       (\<lambda>element. sum_list (map (\<lambda>t. if isEmbedOf (formatOf t) then 1
                                      else int (length (filter (\<lambda>u. u \<noteq> FEFF) (innerText t))))
                               (children element)))
       (elementOf doc block) \<and>
   (\<not> isEmbedOf (formatOf t) \<and> innerText t = [FEFF] \<longrightarrow>
      getBlockLength isEmbedOf doc (ByElement (Element [t])) = Some 0)"
  by (cases "elementOf doc block")
     (simp_all add: getBlockLength_def blockLengthLoop_sum elementOf_def)

theorem getBlockLength_sum_witness:
  "getBlockLength sampleIsEmbed noDocument
     (ByElement (Element [rendered ''inline/text'' ''a'' (js ''ab'' @ [FEFF]),
                          rendered ''inline/image'' ''b'' (js ''picture'')])) = Some 3 \<and>
   \<not> sampleIsEmbed (formatOf (rendered ''inline/text'' ''p'' [FEFF])) \<and>
   innerText (rendered ''inline/text'' ''p'' [FEFF]) = [FEFF] \<and>
   getBlockLength sampleIsEmbed noDocument
     (ByElement (Element [rendered ''inline/text'' ''p'' [FEFF]])) = Some 0"
proof -
  let ?b = "ByElement (Element [rendered ''inline/text'' ''a'' (js ''ab'' @ [FEFF]),
                          rendered ''inline/image'' ''b'' (js ''picture'')])"
  let ?p = "rendered ''inline/text'' ''p'' [FEFF]"
  have s: "map_option
       (\<lambda>element. sum_list (map (\<lambda>t. if sampleIsEmbed (formatOf t) then 1
                                      else int (length (filter (\<lambda>u. u \<noteq> FEFF) (innerText t))))
                               (children element)))
       (elementOf noDocument ?b) = Some 3"
    by code_simp
  have h: "\<not> sampleIsEmbed (formatOf ?p)" "innerText ?p = [FEFF]" by code_simp+
  from getBlockLength_sum[of sampleIsEmbed noDocument ?b ?p] s h show ?thesis
    by simp
qed

section \<open>Arguments outside the content\<close>

text \<open>
  Claim C6 as stated fails for negative arguments, which are not clamped to the
  content boundaries: deleting from index \<open>-1\<close> leaves \<open>ab\<close> as it is, where
  the clamped index 0 removes \<open>a\<close>; splitting \<open>hello\<close> at 3 with the length
  \<open>-2\<close> returns \<open>hel\<close> and \<open>ello\<close>, where the clamped length 0 returns
  \<open>hel\<close> and \<open>lo\<close>.
\<close>

theorem clamping_counterexample:
  "deleteInlineContents (textRun ''n'' '''') [textRun ''a'' ''ab''] (- 1) 1
     \<noteq> deleteInlineContents (textRun ''n'' '''') [textRun ''a'' ''ab'']
          (clampTo 0 (contentsLength [textRun ''a'' ''ab'']) (- 1)) 1 \<and>
   splitInlineContents [textRun ''a'' ''hello''] 3 (- 2)
     \<noteq> splitInlineContents [textRun ''a'' ''hello''] 3
          (clampTo 0 (contentsLength [textRun ''a'' ''hello''] - 3) (- 2))"
  by code_simp

text \<open>
  C6, amended.  Both functions are total: each is a fold of a total step over the
  runs, and the model has no failure value because the source has no \<open>throw\<close> and
  reads no array out of range.  Arguments outside the content are not clamped; they
  fall outside the overlap test of every run.  A deletion whose length is not
  positive, or whose index is negative or at or beyond the total length, returns the
  runs unchanged (the new run of \<open>createInline\<close> for no runs).  An over-long
  deletion length acts as the length that ends at the end of the content.  A split
  whose index is negative or at or beyond the total length cuts no run: the two
  parts together are the runs of the input, unchanged.
\<close>

theorem out_of_range_arguments:
  "(len \<le> 0 \<or> index < 0 \<or> contentsLength cs \<le> index \<longrightarrow>
      deleteInlineContents newInline cs index len = (if cs = [] then [newInline] else cs)) \<and>
   deleteInlineContents newInline cs index len =
     deleteInlineContents newInline cs index (min len (contentsLength cs - index)) \<and>
   (index < 0 \<or> contentsLength cs \<le> index \<longrightarrow>
      fst (splitInlineContents cs index len) @ snd (splitInlineContents cs index len) = cs)"
proof (intro conjI impI)
  assume "len \<le> 0 \<or> index < 0 \<or> contentsLength cs \<le> index"
  then show "deleteInlineContents newInline cs index len = (if cs = [] then [newInline] else cs)"
    by (rule delete_unchanged)
next
  show "deleteInlineContents newInline cs index len =
     deleteInlineContents newInline cs index (min len (contentsLength cs - index))"
    by (rule delete_length_clamped)
next
  assume a: "index < 0 \<or> contentsLength cs \<le> index"
  let ?s0 = "\<lparr> firstContents = [], lastContents = [], cumulativeLengthS = 0, remainingS = len \<rparr>"
  from a have "index < cumulativeLengthS ?s0 \<or> cumulativeLengthS ?s0 + contentsLength cs \<le> index"
    by simp
  from split_foldl_skip[OF this]
  show "fst (splitInlineContents cs index len) @ snd (splitInlineContents cs index len) = cs"
    by (simp add: splitInlineContents_def splitLoop_def Let_def)
qed

theorem out_of_range_arguments_witness:
  "contentsLength [textRun ''a'' ''ab'', textRun ''b'' ''cd''] \<le> 7 \<and>
   deleteInlineContents (textRun ''n'' '''') [textRun ''a'' ''ab'', textRun ''b'' ''cd''] 7 3
     = [textRun ''a'' ''ab'', textRun ''b'' ''cd''] \<and>
   deleteInlineContents (textRun ''n'' '''') [textRun ''a'' ''hello world''] 5 100
     = deleteInlineContents (textRun ''n'' '''') [textRun ''a'' ''hello world''] 5 6 \<and>
   fst (splitInlineContents [textRun ''a'' ''ab'', textRun ''b'' ''cd''] 7 3)
     @ snd (splitInlineContents [textRun ''a'' ''ab'', textRun ''b'' ''cd''] 7 3)
     = [textRun ''a'' ''ab'', textRun ''b'' ''cd'']"
proof -
  let ?cs = "[textRun ''a'' ''ab'', textRun ''b'' ''cd'']"
  have h: "contentsLength ?cs \<le> 7" by code_simp
  have m: "min 100 (contentsLength [textRun ''a'' ''hello world''] - 5) = 6" by code_simp
  have a: "deleteInlineContents (textRun ''n'' '''') ?cs 7 3 = ?cs"
    and c: "fst (splitInlineContents ?cs 7 3) @ snd (splitInlineContents ?cs 7 3) = ?cs"
    using out_of_range_arguments[of 3 7 ?cs "textRun ''n'' ''''"] h by simp_all
  have b: "deleteInlineContents (textRun ''n'' '''') [textRun ''a'' ''hello world''] 5 100
     = deleteInlineContents (textRun ''n'' '''') [textRun ''a'' ''hello world''] 5 6"
    using out_of_range_arguments[of 100 5 "[textRun ''a'' ''hello world'']" "textRun ''n'' ''''"]
    unfolding m by blast
  from h a b c show ?thesis by blast
qed

section \<open>From a block index to a node\<close>

text \<open>
  Claim C7 as stated fails in both directions.  For a block whose only run is the
  placeholder, of length 0, the index 1 exceeds the length and a node is found.  For
  a block whose only run has an empty text and no child node, the index 0 does not
  exceed the length 0 and nothing is found.
\<close>

theorem nativeIndex_notfound_counterexample:
  "getBlockLength sampleIsEmbed noDocument
     (ByElement (Element [rendered ''inline/text'' ''p'' [FEFF]])) = Some 0 \<and>
   getNativeIndexFromBlockIndex sampleIsEmbed noDocument
     (ByElement (Element [rendered ''inline/text'' ''p'' [FEFF]])) 1
     = Some \<lparr> node = FirstChildOf 0, nativeIndex = 1 \<rparr> \<and>
   getBlockLength sampleIsEmbed noDocument
     (ByElement (Element [rendered ''inline/text'' ''q'' []])) = Some 0 \<and>
   getNativeIndexFromBlockIndex sampleIsEmbed noDocument
     (ByElement (Element [rendered ''inline/text'' ''q'' []])) 0 = None"
  by code_simp

text \<open>
  C7, amended.  The walk of \<open>getNativeIndexFromBlockIndex\<close> passes over the runs
  without a format, counts 1 for an embed and the whole \<open>innerText\<close>, sentinel
  included, for a text run.  An index beyond the walked length of the block is not
  found.  When every run with a format has a child node and there is such a run, an
  index up to the walked length is found.  In general nothing is found exactly when
  no run has a format, a child node and a walked length, up to and including the run,
  of at least the index.  What is found is the run located by the walk: the first run
  \<open>t\<close> with a format, a child node and such a walked length; the offset is the
  index less the walked length of the runs before \<open>t\<close>, and the node is the first
  child of \<open>t\<close> when that is a text node and \<open>t\<close> itself otherwise.
\<close>

theorem getNativeIndexFromBlockIndex_walk:
  "(nativeLength isEmbedOf cs < idx \<longrightarrow>
      getNativeIndexFromBlockIndex isEmbedOf doc (ByElement (Element cs)) idx = None) \<and>
   ((\<forall>t\<in>set cs. truthy (formatOf t) \<longrightarrow> firstChild t \<noteq> None) \<and>
    (\<exists>t\<in>set cs. truthy (formatOf t)) \<and> idx \<le> nativeLength isEmbedOf cs \<longrightarrow>
      getNativeIndexFromBlockIndex isEmbedOf doc (ByElement (Element cs)) idx \<noteq> None) \<and>
   ((getNativeIndexFromBlockIndex isEmbedOf doc (ByElement (Element cs)) idx = None) =
      (\<forall>pre t post. cs = pre @ t # post \<longrightarrow> \<not> walkStopsAt isEmbedOf idx pre t)) \<and>
   ((getNativeIndexFromBlockIndex isEmbedOf doc (ByElement (Element cs)) idx = Some p) =
      (\<exists>pre t post. cs = pre @ t # post \<and> walkStopsAt isEmbedOf idx pre t
         \<and> (\<forall>pre' u post'. pre = pre' @ u # post' \<longrightarrow> \<not> walkStopsAt isEmbedOf idx pre' u)
         \<and> p = \<lparr> node = (if firstChild t = Some TextNode then FirstChildOf (length pre)
                           else ChildAt (length pre)),
                  nativeIndex = idx - nativeLength isEmbedOf pre \<rparr>))"
proof (intro conjI impI)
  assume "nativeLength isEmbedOf cs < idx"
  then show "getNativeIndexFromBlockIndex isEmbedOf doc (ByElement (Element cs)) idx = None"
    by (simp add: getNativeIndexFromBlockIndex_def elementOf_def nativeIndexLoop_beyond)
next
  assume "(\<forall>t\<in>set cs. truthy (formatOf t) \<longrightarrow> firstChild t \<noteq> None) \<and>
    (\<exists>t\<in>set cs. truthy (formatOf t)) \<and> idx \<le> nativeLength isEmbedOf cs"
  then have "nativeIndexLoop isEmbedOf cs 0 idx 0 \<noteq> None"
    by (intro nativeIndexLoop_within) simp_all
  then show "getNativeIndexFromBlockIndex isEmbedOf doc (ByElement (Element cs)) idx \<noteq> None"
    by (simp add: getNativeIndexFromBlockIndex_def elementOf_def)
next
  have "getNativeIndexFromBlockIndex isEmbedOf doc (ByElement (Element cs)) idx
      = nativeIndexLoop isEmbedOf cs 0 idx 0"
    by (simp add: getNativeIndexFromBlockIndex_def elementOf_def)
  then show "(getNativeIndexFromBlockIndex isEmbedOf doc (ByElement (Element cs)) idx = None) =
      (\<forall>pre t post. cs = pre @ t # post \<longrightarrow> \<not> walkStopsAt isEmbedOf idx pre t)"
    using nativeIndexLoop_None_iff[of isEmbedOf cs 0 idx 0] by simp
next
  have "getNativeIndexFromBlockIndex isEmbedOf doc (ByElement (Element cs)) idx
      = nativeIndexLoop isEmbedOf cs 0 idx 0"
    by (simp add: getNativeIndexFromBlockIndex_def elementOf_def)
  then show "(getNativeIndexFromBlockIndex isEmbedOf doc (ByElement (Element cs)) idx = Some p) =
      (\<exists>pre t post. cs = pre @ t # post \<and> walkStopsAt isEmbedOf idx pre t
         \<and> (\<forall>pre' u post'. pre = pre' @ u # post' \<longrightarrow> \<not> walkStopsAt isEmbedOf idx pre' u)
         \<and> p = \<lparr> node = (if firstChild t = Some TextNode then FirstChildOf (length pre)
                           else ChildAt (length pre)),
                  nativeIndex = idx - nativeLength isEmbedOf pre \<rparr>)"
    using nativeIndexLoop_Some_iff[of isEmbedOf cs 0 idx 0 p] by simp
qed

theorem getNativeIndexFromBlockIndex_walk_witness:
  "nativeLength sampleIsEmbed [rendered ''inline/text'' ''a'' (js ''ab''),
        rendered ''inline/image'' ''b'' (js ''x''), rendered ''inline/text'' ''c'' (js ''cd'')] < 6 \<and>
   getNativeIndexFromBlockIndex sampleIsEmbed noDocument
     (ByElement (Element [rendered ''inline/text'' ''a'' (js ''ab''),
        rendered ''inline/image'' ''b'' (js ''x''), rendered ''inline/text'' ''c'' (js ''cd'')])) 6 = None \<and>
   4 \<le> nativeLength sampleIsEmbed [rendered ''inline/text'' ''a'' (js ''ab''),
        rendered ''inline/image'' ''b'' (js ''x''), rendered ''inline/text'' ''c'' (js ''cd'')] \<and>
   getNativeIndexFromBlockIndex sampleIsEmbed noDocument
     (ByElement (Element [rendered ''inline/text'' ''a'' (js ''ab''),
        rendered ''inline/image'' ''b'' (js ''x''), rendered ''inline/text'' ''c'' (js ''cd'')])) 4 \<noteq> None \<and>
   walkStopsAt sampleIsEmbed 1 [] (rendered ''inline/text'' ''a'' (js ''ab'')) \<and>
   getNativeIndexFromBlockIndex sampleIsEmbed noDocument
     (ByElement (Element [rendered ''inline/text'' ''a'' (js ''ab''),
        rendered ''inline/image'' ''b'' (js ''x''), rendered ''inline/text'' ''c'' (js ''cd'')])) 1
     = Some \<lparr> node = FirstChildOf 0, nativeIndex = 1 \<rparr>"
proof -
  let ?a = "rendered ''inline/text'' ''a'' (js ''ab'')"
  let ?rest = "[rendered ''inline/image'' ''b'' (js ''x''), rendered ''inline/text'' ''c'' (js ''cd'')]"
  let ?cs = "[rendered ''inline/text'' ''a'' (js ''ab''),
        rendered ''inline/image'' ''b'' (js ''x''), rendered ''inline/text'' ''c'' (js ''cd'')]"
  have h1: "nativeLength sampleIsEmbed ?cs < 6" by code_simp
  have h2: "(\<forall>t\<in>set ?cs. truthy (formatOf t) \<longrightarrow> firstChild t \<noteq> None) \<and>
    (\<exists>t\<in>set ?cs. truthy (formatOf t)) \<and> 4 \<le> nativeLength sampleIsEmbed ?cs"
    by code_simp
  have c1: "getNativeIndexFromBlockIndex sampleIsEmbed noDocument (ByElement (Element ?cs)) 6 = None"
    using getNativeIndexFromBlockIndex_walk[of sampleIsEmbed ?cs 6 noDocument] h1 by blast
  have c2: "getNativeIndexFromBlockIndex sampleIsEmbed noDocument (ByElement (Element ?cs)) 4 \<noteq> None"
    using getNativeIndexFromBlockIndex_walk[of sampleIsEmbed ?cs 4 noDocument] h2 by blast
  have h3: "walkStopsAt sampleIsEmbed 1 [] ?a" by code_simp
  have n: "(if firstChild ?a = Some TextNode then FirstChildOf (length ([]::InlineElement list))
            else ChildAt (length ([]::InlineElement list))) = FirstChildOf 0"
    and o: "1 - nativeLength sampleIsEmbed [] = 1"
    by code_simp+
  have "\<exists>pre t post. ?cs = pre @ t # post \<and> walkStopsAt sampleIsEmbed 1 pre t
         \<and> (\<forall>pre' u post'. pre = pre' @ u # post' \<longrightarrow> \<not> walkStopsAt sampleIsEmbed 1 pre' u)
         \<and> \<lparr> node = FirstChildOf 0, nativeIndex = 1 \<rparr>
             = \<lparr> node = (if firstChild t = Some TextNode then FirstChildOf (length pre)
                           else ChildAt (length pre)),
                  nativeIndex = 1 - nativeLength sampleIsEmbed pre \<rparr>"
    apply (rule exI[of _ "[]"], rule exI[of _ ?a], rule exI[of _ ?rest])
    using h3 by (simp only: n o) simp
  then have c3: "getNativeIndexFromBlockIndex sampleIsEmbed noDocument (ByElement (Element ?cs)) 1
     = Some \<lparr> node = FirstChildOf 0, nativeIndex = 1 \<rparr>"
    using getNativeIndexFromBlockIndex_walk[of sampleIsEmbed ?cs 1 noDocument
        "\<lparr> node = FirstChildOf 0, nativeIndex = 1 \<rparr>"]
    by blast
  from h1 h2 c1 c2 h3 c3 show ?thesis by blast
qed

section \<open>Reading the runs of a rendered block\<close>

text \<open>
  C8.  The contents \<open>getInlineContents\<close> returns are the converted runs of exactly
  the well-formed children, in order, each converted at its own position among all
  children; a child that lacks a format or an inline id leaves the accumulator, and
  the two flags, as they are.
\<close>

theorem getInlineContents_skips_malformed:
  "contents (getInlineContents isEmbedOf doc (ByElement (Element cs))) =
     map (\<lambda>(j, e). convertedRun isEmbedOf j e)
         (filter (\<lambda>(j, e). wellFormed e) (enumerate 0 cs)) \<and>
   (\<not> wellFormed e \<longrightarrow> reduceInline isEmbedOf s e k = s)"
  by (simp add: getInlineContents_def elementOf_def reduceChildren_contents reduceInline_malformed)

theorem getInlineContents_skips_malformed_witness:
  "\<not> wellFormed \<lparr> dataset_format = None, dataset_inlineId = Some (js ''b''),
                   innerText = js ''zz'', firstChild = Some TextNode \<rparr> \<and>
   \<not> wellFormed \<lparr> dataset_format = Some (js ''inline/text''), dataset_inlineId = None,
                   innerText = js ''yy'', firstChild = Some TextNode \<rparr> \<and>
   contents (getInlineContents sampleIsEmbed noDocument
     (ByElement (Element
       [rendered ''inline/text'' ''a'' (js ''ab''),
        \<lparr> dataset_format = None, dataset_inlineId = Some (js ''b''),
          innerText = js ''zz'', firstChild = Some TextNode \<rparr>,
        \<lparr> dataset_format = Some (js ''inline/text''), dataset_inlineId = None,
          innerText = js ''yy'', firstChild = Some TextNode \<rparr>,
        rendered ''inline/text'' ''d'' (js ''cd'')])))
     = [textRun ''a'' ''ab'', textRun ''d'' ''cd'']"
proof -
  let ?m1 = "\<lparr> dataset_format = None, dataset_inlineId = Some (js ''b''),
                   innerText = js ''zz'', firstChild = Some TextNode \<rparr>"
  let ?m2 = "\<lparr> dataset_format = Some (js ''inline/text''), dataset_inlineId = None,
                   innerText = js ''yy'', firstChild = Some TextNode \<rparr>"
  let ?cs = "[rendered ''inline/text'' ''a'' (js ''ab''), ?m1, ?m2,
              rendered ''inline/text'' ''d'' (js ''cd'')]"
  have h: "\<not> wellFormed ?m1" "\<not> wellFormed ?m2" by code_simp+
  have e: "map (\<lambda>(j, e). convertedRun sampleIsEmbed j e)
         (filter (\<lambda>(j, e). wellFormed e) (enumerate 0 ?cs)) = [textRun ''a'' ''ab'', textRun ''d'' ''cd'']"
    by code_simp
  from getInlineContents_skips_malformed[of sampleIsEmbed noDocument ?cs ?m1] h e
  show ?thesis by simp
qed

section \<open>The bound on the history stack\<close>

text \<open>
  C9.  From a new history, and from any history within its bound, no sequence of
  mutations, undos and redos makes the stack longer than the configured maximum;
  pushing onto a full stack drops the oldest frame and appends the new one; a silent
  or collaborator mutation leaves the stack as it is.
\<close>

theorem history_stack_bounded:
  "length (undoStack (runHistory (newHistory bound d) events)) \<le> bound \<and>
   (length (undoStack h) \<le> maxStack h \<longrightarrow>
      length (undoStack (runHistory h events)) \<le> maxStack h) \<and>
   (length st = bound \<and> 0 < bound \<longrightarrow> pushFrame bound f st = tl st @ [f]) \<and>
   (src = Silent \<or> src = Collaborator \<longrightarrow>
      undoStack (recordMutation h src inverseOp now) = undoStack h)"
proof (intro conjI impI)
  have "length (undoStack (newHistory bound d :: 'a History)) \<le> maxStack (newHistory bound d :: 'a History)"
    by (simp add: newHistory_def)
  from runHistory_bound[OF this, of events]
  show "length (undoStack (runHistory (newHistory bound d) events)) \<le> bound"
    by (simp add: newHistory_def)
next
  assume "length (undoStack h) \<le> maxStack h"
  from runHistory_bound[OF this, of events]
  show "length (undoStack (runHistory h events)) \<le> maxStack h" by simp
next
  assume "length st = bound \<and> 0 < bound"
  then show "pushFrame bound f st = tl st @ [f]"
    by (cases st) (auto simp: pushFrame_def Let_def)
next
  assume "src = Silent \<or> src = Collaborator"
  then show "undoStack (recordMutation h src inverseOp now) = undoStack h"
    by (auto simp: recordMutation_def)
qed

theorem history_stack_bounded_witness:
  "length (undoStack (runHistory (newHistory 2 1000)
      [Mutate User ''a'' 0, Mutate User ''b'' 100, Mutate User ''c'' 2000,
       Mutate Silent ''d'' 5000, Mutate User ''e'' 5000, Undo, Redo])) \<le> 2 \<and>
   undoStack (recordMutation (runHistory (newHistory 2 1000) [Mutate User ''a'' 0])
                Collaborator ''z'' 7)
     = undoStack (runHistory (newHistory 2 1000) [Mutate User ''a'' 0]) \<and>
   undoStack (runHistory (newHistory 2 1000) [Mutate User ''a'' 0])
     = [\<lparr> inverseOperations = [''a''], frameSource = User, timestamp = 0 \<rparr>] \<and>
   pushFrame 1 \<lparr> inverseOperations = [''y''], frameSource = User, timestamp = 9 \<rparr>
       [\<lparr> inverseOperations = [''x''], frameSource = User, timestamp = 1 \<rparr>]
     = [\<lparr> inverseOperations = [''y''], frameSource = User, timestamp = 9 \<rparr>]"
proof -
  let ?es = "[Mutate User ''a'' 0, Mutate User ''b'' 100, Mutate User ''c'' 2000,
       Mutate Silent ''d'' 5000, Mutate User ''e'' 5000, Undo, Redo]"
  let ?h = "runHistory (newHistory 2 1000) [Mutate User ''a'' 0]"
  let ?x = "\<lparr> inverseOperations = [''x''], frameSource = User, timestamp = 1 \<rparr>"
  let ?y = "\<lparr> inverseOperations = [''y''], frameSource = User, timestamp = 9 \<rparr>"
  have a: "length (undoStack (runHistory (newHistory 2 1000) ?es)) \<le> 2"
    using history_stack_bounded[of 2 1000 ?es] by blast
  have b: "undoStack (recordMutation ?h Collaborator ''z'' 7) = undoStack ?h"
    using history_stack_bounded[where src = Collaborator and h = ?h and inverseOp = "''z''" and now = 7]
    by blast
  have c: "undoStack ?h = [\<lparr> inverseOperations = [''a''], frameSource = User, timestamp = 0 \<rparr>]"
    by code_simp
  have p: "length [?x] = 1 \<and> (0::nat) < 1" by simp
  have "length [?x] = 1 \<and> (0::nat) < 1 \<longrightarrow> pushFrame 1 ?y [?x] = tl [?x] @ [?y]"
    using history_stack_bounded[where st = "[?x]" and bound = 1 and f = ?y and h = ?h
        and src = User and events = "[]" and d = 0 and inverseOp = "''z''" and now = 0]
    by (elim conjE)
  with p have "pushFrame 1 ?y [?x] = tl [?x] @ [?y]" by (rule rev_mp)
  then have e: "pushFrame 1 ?y [?x] = [?y]" by (simp only: list.sel append_Nil)
  from a b c e show ?thesis by blast
qed

section \<open>Fields of the runs returned\<close>

text \<open>
  C10.  Every run that \<open>deleteInlineContents\<close> returns is the new run of
  \<open>createInline\<close>, a run of the input, or a run of the input with another text and
  every other field as it was; every run in either part that \<open>splitInlineContents\<close>
  returns is a run of the input or a run of the input with another text.
\<close>

theorem edits_keep_run_fields:
  "(\<forall>r\<in>set (deleteInlineContents newInline cs index len).
      r = newInline \<or> (\<exists>q\<in>set cs. r = q \<or> (\<exists>t. r = q\<lparr>text_inline := t\<rparr>))) \<and>
   (\<forall>r\<in>set (fst (splitInlineContents cs index len)) \<union> set (snd (splitInlineContents cs index len)).
      \<exists>q\<in>set cs. r = q \<or> (\<exists>t. r = q\<lparr>text_inline := t\<rparr>))"
proof (intro conjI ballI)
  fix r assume "r \<in> set (deleteInlineContents newInline cs index len)"
  then have "r = newInline \<or> r \<in> set (destContents (deleteLoop cs index len))"
    by (auto simp: deleteInlineContents_def Let_def split: if_splits)
  then show "r = newInline \<or> (\<exists>q\<in>set cs. r = q \<or> (\<exists>t. r = q\<lparr>text_inline := t\<rparr>))"
    using delete_foldl_runs[of r index "\<lparr> destContents = [], cumulativeLength = 0, remaining = len \<rparr>" cs]
    by (auto simp: deleteLoop_def)
next
  fix r assume "r \<in> set (fst (splitInlineContents cs index len)) \<union> set (snd (splitInlineContents cs index len))"
  then have "r \<in> set (firstContents (splitLoop cs index len)) \<union> set (lastContents (splitLoop cs index len))"
    by (simp add: splitInlineContents_def Let_def)
  then show "\<exists>q\<in>set cs. r = q \<or> (\<exists>t. r = q\<lparr>text_inline := t\<rparr>)"
    using split_foldl_runs[of r index "\<lparr> firstContents = [], lastContents = [], cumulativeLengthS = 0, remainingS = len \<rparr>" cs]
    by (auto simp: splitLoop_def)
qed

theorem edits_keep_run_fields_witness:
  "textRun ''a'' ''hd'' \<in> set (deleteInlineContents (textRun ''n'' '''')
        [textRun ''a'' ''held'', embedRun ''e''] 1 2) \<and>
   (\<exists>q\<in>set [textRun ''a'' ''held'', embedRun ''e''].
        textRun ''a'' ''hd'' = q \<or> (\<exists>t. textRun ''a'' ''hd'' = q\<lparr>text_inline := t\<rparr>)) \<and>
   textRun ''a'' ''ld'' \<in> set (fst (splitInlineContents [textRun ''a'' ''held'', embedRun ''e''] 2 0))
        \<union> set (snd (splitInlineContents [textRun ''a'' ''held'', embedRun ''e''] 2 0)) \<and>
   (\<exists>q\<in>set [textRun ''a'' ''held'', embedRun ''e''].
        textRun ''a'' ''ld'' = q \<or> (\<exists>t. textRun ''a'' ''ld'' = q\<lparr>text_inline := t\<rparr>))"
proof -
  let ?cs = "[textRun ''a'' ''held'', embedRun ''e'']"
  have m1: "textRun ''a'' ''hd'' \<in> set (deleteInlineContents (textRun ''n'' '''') ?cs 1 2)"
    by code_simp
  have n1: "textRun ''a'' ''hd'' \<noteq> textRun ''n'' ''''" by code_simp
  have m2: "textRun ''a'' ''ld'' \<in> set (fst (splitInlineContents ?cs 2 0))
        \<union> set (snd (splitInlineContents ?cs 2 0))"
    by code_simp
  from edits_keep_run_fields[of "textRun ''n'' ''''" ?cs 1 2] m1 n1
  have c1: "\<exists>q\<in>set ?cs. textRun ''a'' ''hd'' = q \<or> (\<exists>t. textRun ''a'' ''hd'' = q\<lparr>text_inline := t\<rparr>)"
    by blast
  from edits_keep_run_fields[of _ ?cs 2 0] m2
  have c2: "\<exists>q\<in>set ?cs. textRun ''a'' ''ld'' = q \<or> (\<exists>t. textRun ''a'' ''ld'' = q\<lparr>text_inline := t\<rparr>)"
    by blast
  from m1 c1 m2 c2 show ?thesis by blast
qed

end
